theory Spec2Isabelle
  imports Main "HOL-Library.Word" "HOL-Library.Sublist"
begin

section \<open>Data model\<close>

text \<open>
  Public keys are handled by the size estimator through their base58 text
  (\<open>toBase58()\<close>), so a key is a \<open>string\<close>. Instruction data is a byte buffer.
  All sizes are small non-negative integers, far below \<open>2^53\<close>, so the JavaScript
  numbers are modelled as \<open>nat\<close>.
\<close>

type_synonym pubkey = string

record account_meta =
  pubkey :: pubkey
  isSigner :: bool
  isWritable :: bool

record transaction_instruction =
  keys :: "account_meta list"
  programId :: pubkey
  data :: "8 word list"

text \<open>\<open>InstructionWithSigners\<close>; the signer capability is a type parameter.\<close>

record 's instruction_with_signers =
  instruction :: transaction_instruction
  signers :: "'s list"

text \<open>\<open>AddressLookupTableAccount\<close>: its key and \<open>state.addresses\<close>.\<close>

record address_lookup_table_account =
  key :: pubkey
  addresses :: "pubkey list"

text \<open>\<open>TransactionSize\<close> and \<open>StaticAccountSize\<close> of the estimator.\<close>

record transaction_size =
  size' :: nat
  lookupTables :: "address_lookup_table_account list"
  uniqueKeyCount :: nat

record static_account_size =
  staticSize :: nat
  staticAccounts :: nat

text \<open>\<open>InstructionsWithSignersAndLUTs\<close>: one batch of the packer.\<close>

record 's instructions_with_signers_and_luts =
  instructions :: "'s instruction_with_signers list"
  lookupTables' :: "address_lookup_table_account list"

section \<open>JavaScript sets of strings\<close>

text \<open>
  A \<open>Set<string>\<close> keeps its elements in insertion order without duplicates:
  it is a duplicate-free list. \<open>add\<close> appends an absent element, \<open>delete\<close> removes
  the element, \<open>size\<close> is the length, \<open>new Set(xs)\<close> adds the elements of \<open>xs\<close>
  one after another to the empty set.
\<close>

definition set_add :: "'a \<Rightarrow> 'a list \<Rightarrow> 'a list" where
  "set_add x s = (if x \<in> set s then s else s @ [x])"

definition set_delete :: "'a \<Rightarrow> 'a list \<Rightarrow> 'a list" where
  "set_delete x s = removeAll x s"

definition new_Set :: "'a list \<Rightarrow> 'a list" where
  "new_Set xs = fold set_add xs []"

section \<open>Size estimator\<close>

definition MAX_TRANSACTION_SIZE :: nat where
  "MAX_TRANSACTION_SIZE = 1232"

definition MAX_UNIQUE_KEYS_COUNT :: nat where
  "MAX_UNIQUE_KEYS_COUNT = 128"

definition lengthToCompact16size :: "nat \<Rightarrow> nat" where
  "lengthToCompact16size n = (if n > 0x7f then 2 else 1)"

text \<open>
  \<open>containedInLUTCount\<close>: how many of \<open>keys\<close> the table holds, and the set of
  those it does not hold.
\<close>

definition containedInLUTCount :: "pubkey list \<Rightarrow> pubkey list \<Rightarrow> nat \<times> pubkey list" where
  "containedInLUTCount ks lookupTableAddresses =
     fold (\<lambda>k (includedCount, notIncluded).
             if k \<in> set lookupTableAddresses then (includedCount + 1, notIncluded)
             else (includedCount, set_add k notIncluded))
          ks (0, [])"

definition totalSize :: "static_account_size \<Rightarrow> nat \<Rightarrow> nat \<Rightarrow> nat \<Rightarrow> nat" where
  "totalSize staticAccountSize lutCount includedAccounts remainingStatic =
     (let staticCount = staticAccounts staticAccountSize + remainingStatic
      in staticSize staticAccountSize + 34 * lutCount + includedAccounts
         + lengthToCompact16size staticCount + staticCount * 32)"

text \<open>
  The candidate loop of \<open>findBestLookupTables\<close> (\<open>for (const [lutIndex, lut] of
  remainingLuts.entries())\<close>). A candidate is the pair of the table's address set
  and the table. The loop state is \<open>(bestRemaining, bestSize, bestIncluded,
  bestLutIndex)\<close>; the early \<open>return\<close> inside the loop is the \<open>Inl\<close> result, carrying
  the size, the accepted table and the key count of the returned record.
\<close>

type_synonym lut_entry = "pubkey list \<times> address_lookup_table_account"

type_synonym best_state = "pubkey list \<times> nat \<times> nat \<times> nat"

fun scanLuts :: "static_account_size \<Rightarrow> nat \<Rightarrow> nat \<Rightarrow> pubkey list \<Rightarrow> nat \<Rightarrow> lut_entry list
    \<Rightarrow> best_state \<Rightarrow> (nat \<times> address_lookup_table_account \<times> nat) + best_state" where
  "scanLuts sas lutCount includedAccounts remainingAccounts lutIndex [] best = Inr best"
| "scanLuts sas lutCount includedAccounts remainingAccounts lutIndex (lut # rest)
      (bestRemaining, bestSize, bestIncluded, bestLutIndex) =
     (let (count, remainingUnique) = containedInLUTCount remainingAccounts (fst lut);
          newIncluded = includedAccounts + count;
          txnSize = totalSize sas (lutCount + 1) newIncluded (length remainingUnique)
      in if txnSize < MAX_TRANSACTION_SIZE
         then Inl (txnSize, snd lut, newIncluded + length remainingUnique)
         else if txnSize < bestSize
         then scanLuts sas lutCount includedAccounts remainingAccounts (Suc lutIndex) rest
                (remainingUnique, txnSize, newIncluded, lutIndex)
         else scanLuts sas lutCount includedAccounts remainingAccounts (Suc lutIndex) rest
                (bestRemaining, bestSize, bestIncluded, bestLutIndex))"

lemma scanLuts_index:
  "scanLuts sas lc inc rem i luts (bR, bS, bI, bX) = Inr (r, s, n, x)
   \<Longrightarrow> x = bX \<or> (i \<le> x \<and> x < i + length luts)"
proof (induction luts arbitrary: i bR bS bI bX)
  case Nil
  then show ?case by simp
next
  case (Cons lut rest)
  obtain c ru where cu: "containedInLUTCount rem (fst lut) = (c, ru)"
    by (cases "containedInLUTCount rem (fst lut)")
  show ?case
  proof (cases "totalSize sas (lc + 1) (inc + c) (length ru) < MAX_TRANSACTION_SIZE")
    case True
    with Cons.prems cu show ?thesis by (simp add: Let_def)
  next
    case notacc: False
    show ?thesis
    proof (cases "totalSize sas (lc + 1) (inc + c) (length ru) < bS")
      case True
      with Cons.prems cu notacc
      have "scanLuts sas lc inc rem (Suc i) rest
              (ru, totalSize sas (lc + 1) (inc + c) (length ru), inc + c, i) = Inr (r, s, n, x)"
        by (simp add: Let_def)
      from Cons.IH [OF this] show ?thesis by auto
    next
      case False
      with Cons.prems cu notacc
      have "scanLuts sas lc inc rem (Suc i) rest (bR, bS, bI, bX) = Inr (r, s, n, x)"
        by (simp add: Let_def)
      from Cons.IH [OF this] show ?thesis by auto
    qed
  qed
qed

text \<open>
  \<open>findBestLookupTables\<close>. \<open>usedLuts.push\<close> appends; \<open>remainingLuts.splice(i, 1)\<close>
  removes the element at index \<open>i\<close>, which is always in range (\<open>scanLuts_index\<close>).
\<close>

function findBestLookupTables :: "static_account_size \<Rightarrow> nat \<Rightarrow> nat \<Rightarrow> nat \<Rightarrow> pubkey list
    \<Rightarrow> address_lookup_table_account list \<Rightarrow> lut_entry list \<Rightarrow> transaction_size" where
  "findBestLookupTables sas sz lutCount includedAccounts remainingAccounts usedLuts remainingLuts =
     (if remainingLuts = []
      then \<lparr>size' = sz, lookupTables = usedLuts,
            uniqueKeyCount = includedAccounts + length remainingAccounts\<rparr>
      else
        (case scanLuts sas lutCount includedAccounts remainingAccounts 0 remainingLuts
                (remainingAccounts, sz, includedAccounts, 0) of
           Inl (txnSize, lut, ukc) \<Rightarrow>
             \<lparr>size' = txnSize, lookupTables = usedLuts @ [lut], uniqueKeyCount = ukc\<rparr>
         | Inr (bestRemaining, bestSize, bestIncluded, bestLutIndex) \<Rightarrow>
             if sz = bestSize
             then \<lparr>size' = sz, lookupTables = usedLuts,
                   uniqueKeyCount = includedAccounts + length remainingAccounts\<rparr>
             else findBestLookupTables sas bestSize (lutCount + 1) bestIncluded bestRemaining
                    (usedLuts @ [snd (remainingLuts ! bestLutIndex)])
                    (take bestLutIndex remainingLuts @ drop (Suc bestLutIndex) remainingLuts)))"
  by pat_completeness auto
termination
proof (relation "measure (\<lambda>(sas, sz, lc, inc, rem, used, luts). length luts)", goal_cases)
  case 1
  show ?case by simp
next
  case (2 sas sz lc inc rem used luts x2 bR y bS z bI bX)
  then have "scanLuts sas lc inc rem 0 luts (rem, sz, inc, 0) = Inr (bR, bS, bI, bX)"
    by simp
  from scanLuts_index [OF this] 2(1) have "bX < length luts"
    by (cases luts) auto
  then show ?case by simp
qed


text \<open>
  \<open>getTransactionSize\<close>. The first \<open>forEach\<close> fills the three key sets, starting
  from the funder as the only signer; \<open>keySets\<close> is its result
  \<open>(uniqueSigners, programIds, lutEligibleKeys)\<close>.
\<close>

fun collectKey :: "account_meta \<Rightarrow> pubkey list \<times> pubkey list \<Rightarrow> pubkey list \<times> pubkey list" where
  "collectKey s (uniqueSigners, lutEligibleKeys) =
     ((if isSigner s then set_add (pubkey s) uniqueSigners else uniqueSigners),
      set_add (pubkey s) lutEligibleKeys)"

fun collectIx :: "'s instruction_with_signers
    \<Rightarrow> pubkey list \<times> pubkey list \<times> pubkey list \<Rightarrow> pubkey list \<times> pubkey list \<times> pubkey list" where
  "collectIx ixw (uniqueSigners, programIds, lutEligibleKeys) =
     (let (uniqueSigners', lutEligibleKeys') =
            fold collectKey (keys (instruction ixw)) (uniqueSigners, lutEligibleKeys)
      in (uniqueSigners', set_add (programId (instruction ixw)) programIds, lutEligibleKeys'))"

definition keySets :: "'s instruction_with_signers list \<Rightarrow> pubkey
    \<Rightarrow> pubkey list \<times> pubkey list \<times> pubkey list" where
  "keySets ixs funder = fold collectIx ixs (set_add funder [], [], [])"

definition ixSize :: "'s instruction_with_signers \<Rightarrow> nat" where
  "ixSize ixw =
     1 + lengthToCompact16size (length (keys (instruction ixw)))
       + length (keys (instruction ixw))
       + lengthToCompact16size (length (data (instruction ixw)))
       + length (data (instruction ixw))"

definition getTransactionSize :: "'s instruction_with_signers list \<Rightarrow> pubkey \<Rightarrow> lut_entry list
    \<Rightarrow> transaction_size" where
  "getTransactionSize ixs funder lookupTbls =
     (let (uniqueSigners, programIds, eligible0) = keySets ixs funder;
          lutEligibleKeys = fold set_delete programIds (fold set_delete uniqueSigners eligible0);
          ineligibleKeys = new_Set (uniqueSigners @ programIds);
          ixSizes = fold (\<lambda>ixw acc. acc + ixSize ixw) ixs 0;
          staticSz = lengthToCompact16size (length uniqueSigners)
                     + length uniqueSigners * 64 + 3 + 32 + 1
                     + lengthToCompact16size (length ixs) + ixSizes + 1;
          staticAccountSize = \<lparr>staticSize = staticSz, staticAccounts = length ineligibleKeys\<rparr>;
          bestSize = totalSize staticAccountSize 0 0 (length lutEligibleKeys);
          uniqueKeyCnt = length ineligibleKeys + length lutEligibleKeys
      in if bestSize \<le> MAX_TRANSACTION_SIZE \<or> lookupTbls = []
         then \<lparr>size' = bestSize, lookupTables = [], uniqueKeyCount = uniqueKeyCnt\<rparr>
         else if uniqueKeyCnt > MAX_UNIQUE_KEYS_COUNT
         then \<lparr>size' = bestSize, lookupTables = [], uniqueKeyCount = uniqueKeyCnt\<rparr>
         else findBestLookupTables staticAccountSize bestSize 0 0 lutEligibleKeys [] lookupTbls)"

section \<open>Dynamic packer\<close>

definition insert_arr :: "'a list \<Rightarrow> nat \<Rightarrow> 'a \<Rightarrow> 'a list" where
  "insert_arr arr index newItem = take index arr @ [newItem] @ drop index arr"

text \<open>
  \<open>deepCopyInstructions\<close> rebuilds every instruction from copies of its parts; on
  values this is the batch itself (\<open>deepCopyInstructions_id\<close>).
\<close>

definition deepCopyInstructions :: "'s instructions_with_signers_and_luts
    \<Rightarrow> 's instructions_with_signers_and_luts" where
  "deepCopyInstructions b =
     \<lparr>instructions =
        map (\<lambda>entry. entry\<lparr>instruction :=
               \<lparr>keys = map (\<lambda>k. k) (keys (instruction entry)),
                programId = programId (instruction entry),
                data = data (instruction entry)\<rparr>\<rparr>)
            (instructions b),
      lookupTables' = lookupTables' b\<rparr>"

definition buildLookupTableSet :: "address_lookup_table_account list \<Rightarrow> lut_entry list" where
  "buildLookupTableSet lookupTbls = map (\<lambda>lut. (new_Set (addresses lut), lut)) lookupTbls"

definition err_scaffold_size :: string where
  "err_scaffold_size = ''Before and after instructions alone are too big to fit in transaction''"

definition err_scaffold_keys :: string where
  "err_scaffold_keys =
     ''Before and after instructions alone have too many unique keys to fit in transaction''"

definition err_ix_size :: string where
  "err_ix_size = ''Instruction too large to fit in transaction: ''"

definition err_ix_keys :: string where
  "err_ix_keys = ''Instruction has too many unique accounts to fit in transaction: ''"

text \<open>
  The \<open>for (const ix of instructionsWithSigners)\<close> loop of
  \<open>buildDynamicTransactionsNoSigning\<close>, on the state \<open>(current, output)\<close>. A
  \<open>return err(...)\<close> inside the loop is the \<open>Inl\<close> result. The insertion index
  \<open>current.instructions.length - afterIxs.length\<close> is never negative, because
  \<open>current\<close> always ends with the after-instructions.
\<close>

fun packLoop :: "pubkey \<Rightarrow> 's instruction_with_signers list \<Rightarrow> 's instruction_with_signers list
    \<Rightarrow> lut_entry list \<Rightarrow> nat \<Rightarrow> 's instruction_with_signers list
    \<Rightarrow> 's instructions_with_signers_and_luts \<Rightarrow> 's instructions_with_signers_and_luts list
    \<Rightarrow> string + ('s instructions_with_signers_and_luts
                  \<times> 's instructions_with_signers_and_luts list)" where
  "packLoop funder beforeIxs afterIxs lookupTableAddresses maxInstructionCount [] current output =
     Inr (current, output)"
| "packLoop funder beforeIxs afterIxs lookupTableAddresses maxInstructionCount (ix # rest)
      current output =
     (let nextIxs = insert_arr (instructions current)
                      (length (instructions current) - length afterIxs) ix;
          next = getTransactionSize nextIxs funder lookupTableAddresses
      in if size' next > MAX_TRANSACTION_SIZE
            \<or> uniqueKeyCount next > MAX_UNIQUE_KEYS_COUNT
            \<or> length nextIxs > maxInstructionCount
         then
           (let output' = output @ [deepCopyInstructions current];
                currentIxs = beforeIxs @ [ix] @ afterIxs;
                cur = getTransactionSize currentIxs funder lookupTableAddresses
            in if size' cur > MAX_TRANSACTION_SIZE
               then Inl (err_ix_size @ programId (instruction ix))
               else if uniqueKeyCount cur > MAX_UNIQUE_KEYS_COUNT
               then Inl (err_ix_keys @ programId (instruction ix))
               else packLoop funder beforeIxs afterIxs lookupTableAddresses maxInstructionCount
                      rest \<lparr>instructions = currentIxs, lookupTables' = lookupTables cur\<rparr> output')
         else packLoop funder beforeIxs afterIxs lookupTableAddresses maxInstructionCount
                rest \<lparr>instructions = nextIxs, lookupTables' = lookupTables next\<rparr> output)"

text \<open>
  \<open>buildDynamicTransactionsNoSigning\<close>, on the resolved instruction lists (each
  \<open>InstructionReturn\<close> already applied to the fee payer and flattened) and the fee
  payer's public key. \<open>Inl\<close> is \<open>err(message)\<close>, \<open>Inr\<close> is \<open>ok(output)\<close>.
\<close>

definition buildDynamicTransactionsNoSigning :: "'s instruction_with_signers list \<Rightarrow> pubkey
    \<Rightarrow> 's instruction_with_signers list \<Rightarrow> 's instruction_with_signers list
    \<Rightarrow> address_lookup_table_account list \<Rightarrow> nat
    \<Rightarrow> string + 's instructions_with_signers_and_luts list" where
  "buildDynamicTransactionsNoSigning instructionsWithSigners funder beforeIxs afterIxs
      lookupTbls maxInstructionCount =
     (let lookupTableAddresses = buildLookupTableSet lookupTbls;
          scaffold = getTransactionSize (beforeIxs @ afterIxs) funder lookupTableAddresses
      in if size' scaffold > MAX_TRANSACTION_SIZE then Inl err_scaffold_size
         else if uniqueKeyCount scaffold > MAX_UNIQUE_KEYS_COUNT then Inl err_scaffold_keys
         else
           (case packLoop funder beforeIxs afterIxs lookupTableAddresses maxInstructionCount
                   instructionsWithSigners
                   \<lparr>instructions = beforeIxs @ afterIxs, lookupTables' = lookupTables scaffold\<rparr> []
            of Inl e \<Rightarrow> Inl e
             | Inr (current, output) \<Rightarrow>
                 if length (instructions current) > length beforeIxs + length afterIxs
                 then Inr (output @ [deepCopyInstructions current])
                 else Inr output))"

section \<open>Signer coordinator\<close>

text \<open>
  \<open>signTransactionReturns\<close> runs two loops over \<open>signers.values()\<close>. Of an
  \<open>AsyncSigner\<close> it calls two methods: \<open>requiresAsync()\<close>, once for each entry in
  each loop, and \<open>signAll\<close>, at most once for each entry in each loop. What a method
  returns may depend on when it is called, so the signer of an entry gives both by the
  loop in which the call is made. The promise of \<open>signAll\<close> either resolves with a
  list of messages (\<open>Some\<close>) or rejects (\<open>None\<close>). A \<open>SignerEntry\<close> pairs a signer
  with the set of message indices it signs. The \<open>SignerMap\<close> is a JavaScript \<open>Map\<close>:
  a list of key/entry pairs in insertion order, which is the order of
  \<open>signers.values()\<close>.
\<close>

datatype sign_loop = FirstLoop | SecondLoop

record 'tx async_signer =
  requiresAsync :: "sign_loop \<Rightarrow> bool"
  signAll :: "sign_loop \<Rightarrow> 'tx list \<Rightarrow> 'tx list option"

record 'tx signer_entry =
  signer :: "'tx async_signer"
  transactions :: "nat list"

datatype sign_error = SignerRejected | AssertionFailed

text \<open>
  The observable calls of a signing cycle: the invocation of \<open>signAll\<close> on the signer
  of an entry (named by the entry's map key, with the indices of the messages passed)
  and the resolution of that call.
\<close>

datatype sign_event = SignAllCalled pubkey "nat list" | SignAllResolved pubkey

definition txsToSign :: "'tx list \<Rightarrow> nat list \<Rightarrow> ('tx \<times> nat) list" where
  "txsToSign unsignedTransactions txIndices =
     filter (\<lambda>(tx, index). index \<in> set txIndices)
            (zip unsignedTransactions [0..<length unsignedTransactions])"

text \<open>
  \<open>signTxns\<close> on the state (messages, trace), for the entry of map key \<open>k\<close> in the
  given loop. A rejected \<open>signAll\<close> and a failed \<open>assert\<close> end the cycle with an
  exception (\<open>Inl\<close>); the trace up to there is kept.
\<close>

definition signTxns :: "sign_loop \<Rightarrow> pubkey \<Rightarrow> 'tx signer_entry \<Rightarrow> 'tx list \<times> sign_event list
    \<Rightarrow> (sign_error \<times> sign_event list) + ('tx list \<times> sign_event list)" where
  "signTxns loop k entry st =
     (case st of (unsignedTransactions, trace) \<Rightarrow>
        (let toSign = txsToSign unsignedTransactions (transactions entry);
             trace1 = trace @ [SignAllCalled k (map snd toSign)]
         in case signAll (signer entry) loop (map fst toSign) of
              None \<Rightarrow> Inl (SignerRejected, trace1)
            | Some newTxs \<Rightarrow>
                (let trace2 = trace1 @ [SignAllResolved k]
                 in if length newTxs \<noteq> length toSign then Inl (AssertionFailed, trace2)
                    else Inr (fold (\<lambda>x txs. txs[snd (toSign ! x) := newTxs ! x])
                                   [0..<length toSign] unsignedTransactions,
                              trace2))))"

text \<open>
  The test of each loop on the answer of \<open>requiresAsync()\<close>: the first loop signs
  with the signers that answer \<open>true\<close> (\<open>if (signer.signer.requiresAsync())\<close>), the
  second with those that answer \<open>false\<close> (\<open>if (!signer.signer.requiresAsync())\<close>).
\<close>

fun selected :: "sign_loop \<Rightarrow> bool \<Rightarrow> bool" where
  "selected FirstLoop answer = answer"
| "selected SecondLoop answer = (\<not> answer)"

text \<open>
  One \<open>for (const signer of signers.values())\<close> loop. Each \<open>await signTxns(signer)\<close>
  ends before the next iteration starts.
\<close>

fun signPass :: "sign_loop \<Rightarrow> (pubkey \<times> 'tx signer_entry) list \<Rightarrow> 'tx list \<times> sign_event list
    \<Rightarrow> (sign_error \<times> sign_event list) + ('tx list \<times> sign_event list)" where
  "signPass loop [] st = Inr st"
| "signPass loop ((k, entry) # rest) st =
     (if selected loop (requiresAsync (signer entry) loop)
      then (case signTxns loop k entry st of
              Inl e \<Rightarrow> Inl e
            | Inr st' \<Rightarrow> signPass loop rest st')
      else signPass loop rest st)"

definition signTransactionReturns :: "'tx list \<Rightarrow> (pubkey \<times> 'tx signer_entry) list
    \<Rightarrow> (sign_error \<times> sign_event list) + ('tx list \<times> sign_event list)" where
  "signTransactionReturns unsignedTransactions signerMap =
     (case signPass FirstLoop signerMap (unsignedTransactions, []) of
        Inl e \<Rightarrow> Inl e
      | Inr st \<Rightarrow> signPass SecondLoop signerMap st)"

section \<open>Submission engine\<close>

text \<open>
  \<open>sendTransaction\<close> talks to the network; what the network and the clock do is
  the environment of a call: whether \<open>serialize()\<close> and \<open>verifySignatures\<close> throw,
  what the first \<open>sendRawTransaction\<close> returns, how many times the interval fires
  while the confirmation is awaited, and how \<open>confirmTransaction\<close> settles (it
  rejects, or resolves with a context and \<open>value.err\<close>). The state of a call is the
  interval handle, the retry counter and the number of re-broadcasts.
\<close>

datatype interval_state = NoInterval | IntervalActive | IntervalCleared

record send_state =
  interval :: interval_state
  count :: nat
  resends :: nat

record ('sig, 'err, 'exn, 'ctx) send_env =
  serializeThrows :: "'exn option"
  isVersionedTransaction :: bool
  verifySignaturesThrows :: "'exn option"
  sendRawTransaction :: "'exn + 'sig"
  intervalFirings :: nat
  confirmTransaction :: "'exn + ('ctx \<times> 'err option)"

definition intervalCallback :: "nat \<Rightarrow> send_state \<Rightarrow> send_state" where
  "intervalCallback maxRetries st =
     st\<lparr>resends := (if count st < maxRetries then resends st + 1 else resends st),
        count := count st + 1\<rparr>"

text \<open>
  The result is the final state and either the exception thrown (\<open>Inl\<close>) or the
  returned \<open>{context, value}\<close> (\<open>Inr\<close>), whose value is \<open>err(error)\<close> (\<open>Inl\<close>) or
  \<open>ok(signature)\<close> (\<open>Inr\<close>). The \<open>finally\<close> block clears the interval on both ways
  out of the \<open>try\<close>.
\<close>

definition sendTransaction :: "('sig, 'err, 'exn, 'ctx) send_env \<Rightarrow> nat
    \<Rightarrow> send_state \<times> ('exn + ('ctx \<times> ('err + 'sig)))" where
  "sendTransaction env maxRetries =
     (let st0 = \<lparr>interval = NoInterval, count = 0, resends = 0\<rparr>
      in case serializeThrows env of
           Some x \<Rightarrow> (st0, Inl x)
         | None \<Rightarrow>
             (case (if isVersionedTransaction env then verifySignaturesThrows env else None) of
                Some x \<Rightarrow> (st0, Inl x)
              | None \<Rightarrow>
                  (case sendRawTransaction env of
                     Inl x \<Rightarrow> (st0, Inl x)
                   | Inr signature \<Rightarrow>
                       (let st1 = st0\<lparr>interval := IntervalActive\<rparr>;
                            st2 = (intervalCallback maxRetries ^^ intervalFirings env) st1;
                            st3 = st2\<lparr>interval := IntervalCleared\<rparr>
                        in case confirmTransaction env of
                             Inl x \<Rightarrow> (st3, Inl x)
                           | Inr (context, error) \<Rightarrow>
                               (case error of
                                  Some e \<Rightarrow> (st3, Inr (context, Inl e))
                                | None \<Rightarrow> (st3, Inr (context, Inr signature)))))))"

section \<open>Notions used in the statements\<close>

text \<open>
  The three values the candidate loop computes for one candidate table: the number
  of remaining keys it holds, the keys it leaves, and the projected size.
\<close>

definition candidateCount :: "pubkey list \<Rightarrow> lut_entry \<Rightarrow> nat" where
  "candidateCount remainingAccounts lut = fst (containedInLUTCount remainingAccounts (fst lut))"

definition candidateRemaining :: "pubkey list \<Rightarrow> lut_entry \<Rightarrow> pubkey list" where
  "candidateRemaining remainingAccounts lut = snd (containedInLUTCount remainingAccounts (fst lut))"

definition candidateSize :: "static_account_size \<Rightarrow> nat \<Rightarrow> nat \<Rightarrow> pubkey list \<Rightarrow> lut_entry \<Rightarrow> nat" where
  "candidateSize sas lutCount includedAccounts remainingAccounts lut =
     totalSize sas (lutCount + 1) (includedAccounts + candidateCount remainingAccounts lut)
       (length (candidateRemaining remainingAccounts lut))"

text \<open>
  The byte and key test of the packer (the negation of \<open>size > MAX_TRANSACTION_SIZE
  || uniqueKeyCount > MAX_UNIQUE_KEYS_COUNT\<close>), and a batch that carries it together
  with the tables chosen for it.
\<close>

definition withinBudget :: "transaction_size \<Rightarrow> bool" where
  "withinBudget r = (size' r \<le> MAX_TRANSACTION_SIZE \<and> uniqueKeyCount r \<le> MAX_UNIQUE_KEYS_COUNT)"

definition batchOk :: "pubkey \<Rightarrow> lut_entry list \<Rightarrow> 's instructions_with_signers_and_luts \<Rightarrow> bool" where
  "batchOk funder lta batch \<longleftrightarrow>
     withinBudget (getTransactionSize (instructions batch) funder lta)
     \<and> lookupTables' batch = lookupTables (getTransactionSize (instructions batch) funder lta)"

text \<open>A batch without its before- and after-instructions.\<close>

definition stripScaffold :: "'a list \<Rightarrow> 'a list \<Rightarrow> 'a list \<Rightarrow> 'a list" where
  "stripScaffold beforeIxs afterIxs b =
     take (length b - length beforeIxs - length afterIxs) (drop (length beforeIxs) b)"

text \<open>The keys an instruction list mentions, by role.\<close>

definition signerKeys :: "'s instruction_with_signers list \<Rightarrow> pubkey list" where
  "signerKeys ixs = concat (map (\<lambda>ixw. map pubkey (filter isSigner (keys (instruction ixw)))) ixs)"

definition accountKeys :: "'s instruction_with_signers list \<Rightarrow> pubkey list" where
  "accountKeys ixs = concat (map (\<lambda>ixw. map pubkey (keys (instruction ixw))) ixs)"

definition programKeys :: "'s instruction_with_signers list \<Rightarrow> pubkey list" where
  "programKeys ixs = map (\<lambda>ixw. programId (instruction ixw)) ixs"

text \<open>
  The size formula as the specification words it: compact length, signer count,
  static key count (every key once), static region and baseline size.
\<close>

definition compact_length_of :: "nat \<Rightarrow> nat" where
  "compact_length_of n = (if n \<le> 127 then 1 else 2)"

definition spec_signerCount :: "'s instruction_with_signers list \<Rightarrow> pubkey \<Rightarrow> nat" where
  "spec_signerCount ixs funder = card (set (funder # signerKeys ixs))"

definition spec_staticKeyCount :: "'s instruction_with_signers list \<Rightarrow> pubkey \<Rightarrow> nat" where
  "spec_staticKeyCount ixs funder =
     card (set (funder # signerKeys ixs @ programKeys ixs @ accountKeys ixs))"

definition spec_staticRegion :: "'s instruction_with_signers list \<Rightarrow> pubkey \<Rightarrow> nat" where
  "spec_staticRegion ixs funder =
     compact_length_of (spec_signerCount ixs funder) + 64 * spec_signerCount ixs funder
     + 3 + 32 + 1 + compact_length_of (length ixs)
     + (\<Sum>ixw\<leftarrow>ixs. 1 + compact_length_of (length (keys (instruction ixw)))
                     + length (keys (instruction ixw))
                     + compact_length_of (length (data (instruction ixw)))
                     + length (data (instruction ixw)))
     + 1"

definition spec_baselineSize :: "'s instruction_with_signers list \<Rightarrow> pubkey \<Rightarrow> nat" where
  "spec_baselineSize ixs funder =
     spec_staticRegion ixs funder + compact_length_of (spec_staticKeyCount ixs funder)
     + 32 * spec_staticKeyCount ixs funder"

text \<open>
  The signers of a map answer \<open>requiresAsync()\<close> alike in both loops.
\<close>

definition stableAnswers :: "(pubkey \<times> 'tx signer_entry) list \<Rightarrow> bool" where
  "stableAnswers signerMap =
     list_all (\<lambda>p. requiresAsync (signer (snd p)) FirstLoop
                   = requiresAsync (signer (snd p)) SecondLoop) signerMap"

text \<open>
  The trace the specification describes for a signing cycle over \<open>n\<close> messages:
  every signer that requires async, in map order, called once with all its
  assigned messages and resolved; then every local signer the same way.
\<close>

definition assignedIndices :: "nat \<Rightarrow> 'tx signer_entry \<Rightarrow> nat list" where
  "assignedIndices n entry = filter (\<lambda>index. index \<in> set (transactions entry)) [0..<n]"

definition spec_signerEvents :: "nat \<Rightarrow> pubkey \<times> 'tx signer_entry \<Rightarrow> sign_event list" where
  "spec_signerEvents n p =
     [SignAllCalled (fst p) (assignedIndices n (snd p)), SignAllResolved (fst p)]"

definition spec_twoPassTrace :: "nat \<Rightarrow> (pubkey \<times> 'tx signer_entry) list \<Rightarrow> sign_event list" where
  "spec_twoPassTrace n signerMap =
     concat (map (spec_signerEvents n)
               (filter (\<lambda>p. requiresAsync (signer (snd p)) FirstLoop) signerMap))
     @ concat (map (spec_signerEvents n)
                 (filter (\<lambda>p. \<not> requiresAsync (signer (snd p)) FirstLoop) signerMap))"

definition callsOf :: "sign_event list \<Rightarrow> pubkey \<Rightarrow> nat" where
  "callsOf trace k =
     length (filter (\<lambda>ev. case ev of SignAllCalled k' idx \<Rightarrow> k' = k
                                   | SignAllResolved k' \<Rightarrow> False) trace)"

text \<open>A send call gets as far as awaiting the confirmation.\<close>

definition reachesConfirmation :: "('sig, 'err, 'exn, 'ctx) send_env \<Rightarrow> bool" where
  "reachesConfirmation env \<longleftrightarrow>
     serializeThrows env = None
     \<and> (isVersionedTransaction env \<longrightarrow> verifySignaturesThrows env = None)
     \<and> (\<exists>s. sendRawTransaction env = Inr s)"

section \<open>Example inputs\<close>

text \<open>
  An instruction over the given non-signer accounts with \<open>d\<close> zero bytes of data,
  and a lookup table with the given addresses.
\<close>

definition example_ix :: "pubkey list \<Rightarrow> pubkey \<Rightarrow> nat \<Rightarrow> unit instruction_with_signers" where
  "example_ix ks p d =
     \<lparr>instruction = \<lparr>keys = map (\<lambda>k. \<lparr>pubkey = k, isSigner = False, isWritable = False\<rparr>) ks,
                     programId = p, data = replicate d 0\<rparr>,
      signers = []\<rparr>"

definition example_lut :: "pubkey \<Rightarrow> pubkey list \<Rightarrow> address_lookup_table_account" where
  "example_lut k as = \<lparr>key = k, addresses = as\<rparr>"

text \<open>
  A scaffold of one instruction over eight accounts, an instruction over three more,
  and three overlapping tables: the first holds three accounts of each half of the
  scaffold, the second the first half and the accounts of the instruction, the third
  the second half.
\<close>

definition greedy_scaffold :: "unit instruction_with_signers list" where
  "greedy_scaffold =
     [example_ix [''a1'', ''a2'', ''a3'', ''a4'', ''b1'', ''b2'', ''b3'', ''b4''] ''B'' 955]"

definition greedy_ix :: "unit instruction_with_signers" where
  "greedy_ix = example_ix [''c1'', ''c2'', ''c3''] ''B'' 0"

definition greedy_tables :: "address_lookup_table_account list" where
  "greedy_tables =
     [example_lut ''T1'' [''a1'', ''a2'', ''a3'', ''b1'', ''b2'', ''b3''],
      example_lut ''T2'' [''a1'', ''a2'', ''a3'', ''a4'', ''c1'', ''c2'', ''c3''],
      example_lut ''T3'' [''b1'', ''b2'', ''b3'', ''b4'']]"

text \<open>
  An instruction over four accounts with 956 bytes of data, and three tables holding
  two, three and one of its accounts.
\<close>

definition tight_ix :: "unit instruction_with_signers" where
  "tight_ix = example_ix [''k1'', ''k2'', ''k3'', ''k4''] ''P'' 956"

definition tight_first :: address_lookup_table_account where
  "tight_first = example_lut ''L1'' [''k1'', ''k2'']"

definition tight_second :: address_lookup_table_account where
  "tight_second = example_lut ''L2'' [''k1'', ''k2'', ''k3'']"

definition tight_useless :: address_lookup_table_account where
  "tight_useless = example_lut ''L0'' [''k1'']"

text \<open>
  The same four accounts with 1000 bytes of data leave every candidate above the
  budget; three candidate tables for it, as the selector receives them.
\<close>

definition roomy_ix :: "unit instruction_with_signers" where
  "roomy_ix = example_ix [''k1'', ''k2'', ''k3'', ''k4''] ''P'' 1000"

definition roomy_first :: lut_entry where
  "roomy_first = (new_Set [''k1'', ''k2''], example_lut ''L1'' [''k1'', ''k2''])"

definition roomy_second :: lut_entry where
  "roomy_second = (new_Set [''k1'', ''k2'', ''k3''], example_lut ''L2'' [''k1'', ''k2'', ''k3''])"

definition roomy_third :: lut_entry where
  "roomy_third = (new_Set [''k2'', ''k3'', ''k4''], example_lut ''L3'' [''k2'', ''k3'', ''k4''])"

text \<open>
  An instruction over \<open>n\<close> distinct accounts \<open>k\<close>, \<open>kk\<close>, \<open>kkk\<close>, ..., and the
  lookup table that holds exactly these accounts.
\<close>

definition crowded_keys :: "nat \<Rightarrow> pubkey list" where
  "crowded_keys n = map (\<lambda>i. replicate (Suc i) CHR ''k'') [0..<n]"

definition crowded_ix :: "nat \<Rightarrow> unit instruction_with_signers" where
  "crowded_ix n = example_ix (crowded_keys n) ''P'' 0"

definition crowded_table :: "nat \<Rightarrow> address_lookup_table_account" where
  "crowded_table n = example_lut ''L'' (crowded_keys n)"

text \<open>
  Two signers over two messages: a local key \<open>K\<close> that signs both, registered first,
  and a wallet \<open>W\<close> that requires async and signs the second; the wallet accepts or
  rejects. Signing a message appends the signer's key to it. A third signer \<open>V\<close>
  answers \<open>requiresAsync()\<close> with \<open>true\<close> in the first loop and \<open>false\<close> in the
  second.
\<close>

definition example_signer :: "pubkey \<Rightarrow> bool \<Rightarrow> bool \<Rightarrow> (pubkey list) async_signer" where
  "example_signer k async accepts =
     \<lparr>requiresAsync = (\<lambda>loop. async),
      signAll = (\<lambda>loop txs. if accepts then Some (map (\<lambda>tx. tx @ [k]) txs) else None)\<rparr>"

definition example_signers :: "bool \<Rightarrow> (pubkey \<times> (pubkey list) signer_entry) list" where
  "example_signers walletAccepts =
     [(''K'', \<lparr>signer = example_signer ''K'' False True, transactions = [0, 1]\<rparr>),
      (''W'', \<lparr>signer = example_signer ''W'' True walletAccepts, transactions = [1]\<rparr>)]"

definition fickle_signers :: "(pubkey \<times> (pubkey list) signer_entry) list" where
  "fickle_signers =
     [(''V'', \<lparr>signer = \<lparr>requiresAsync = (\<lambda>loop. loop = FirstLoop),
                          signAll = (\<lambda>loop txs. Some (map (\<lambda>tx. tx @ [''V'']) txs))\<rparr>,
              transactions = [0]\<rparr>)]"

text \<open>A send whose first submission succeeds, with the given confirmation outcome.\<close>

definition example_send_env :: "string + (nat \<times> string option) \<Rightarrow> (string, string, string, nat) send_env" where
  "example_send_env confirmation =
     \<lparr>serializeThrows = None, isVersionedTransaction = True, verifySignaturesThrows = None,
      sendRawTransaction = Inr ''5sig'', intervalFirings = 3, confirmTransaction = confirmation\<rparr>"

section \<open>Auxiliary facts\<close>

subsection \<open>Sets as duplicate-free lists\<close>

lemma set_set_add [simp]: "set (set_add x s) = insert x (set s)"
  by (auto simp: set_add_def)

lemma distinct_set_add [simp]: "distinct (set_add x s) = distinct s"
  by (auto simp: set_add_def)

lemma set_set_delete [simp]: "set (set_delete x s) = set s - {x}"
  by (auto simp: set_delete_def)

lemma distinct_set_delete [simp]: "distinct s \<Longrightarrow> distinct (set_delete x s)"
  by (simp add: set_delete_def distinct_removeAll)

lemma set_fold_set_add [simp]: "set (fold set_add xs s) = set xs \<union> set s"
  by (induction xs arbitrary: s) auto

lemma distinct_fold_set_add [simp]: "distinct (fold set_add xs s) = distinct s"
  by (induction xs arbitrary: s) auto

lemma set_fold_set_delete [simp]: "set (fold set_delete xs s) = set s - set xs"
  by (induction xs arbitrary: s) auto

lemma distinct_fold_set_delete [simp]: "distinct s \<Longrightarrow> distinct (fold set_delete xs s)"
  by (induction xs arbitrary: s) auto

lemma set_new_Set [simp]: "set (new_Set xs) = set xs"
  by (simp add: new_Set_def)

lemma distinct_new_Set [simp]: "distinct (new_Set xs)"
  by (simp add: new_Set_def)

subsection \<open>The key sets of the estimator\<close>

text \<open>
  The first loop of \<open>getTransactionSize\<close> collects, without duplicates, the funder
  and the signer keys, the program ids, and all account keys.
\<close>

lemma fold_collectKey:
  "fold collectKey ks (us, el) = (us', el') \<Longrightarrow>
   set us' = set us \<union> set (map pubkey (filter isSigner ks)) \<and> set el' = set el \<union> set (map pubkey ks)
   \<and> distinct us' = distinct us \<and> distinct el' = distinct el"
proof (induction ks arbitrary: us el)
  case Nil
  then show ?case by simp
next
  case (Cons k ks)
  from Cons.prems have "fold collectKey ks ((if isSigner k then set_add (pubkey k) us else us), set_add (pubkey k) el) = (us', el')"
    by simp
  from Cons.IH [OF this] show ?case by auto
qed

lemma fold_collectIx:
  "fold collectIx ixs (us, ps, el) = (us', ps', el') \<Longrightarrow>
   set us' = set us \<union> set (signerKeys ixs) \<and> set ps' = set ps \<union> set (programKeys ixs)
   \<and> set el' = set el \<union> set (accountKeys ixs)
   \<and> distinct us' = distinct us \<and> distinct ps' = distinct ps \<and> distinct el' = distinct el"
proof (induction ixs arbitrary: us ps el)
  case Nil
  then show ?case by (simp add: signerKeys_def programKeys_def accountKeys_def)
next
  case (Cons ixw ixs)
  obtain u1 e1 where f: "fold collectKey (keys (instruction ixw)) (us, el) = (u1, e1)"
    by (cases "fold collectKey (keys (instruction ixw)) (us, el)")
  from Cons.prems f have "fold collectIx ixs (u1, set_add (programId (instruction ixw)) ps, e1) = (us', ps', el')"
    by (simp split: prod.splits)
  from Cons.IH [OF this] fold_collectKey [OF f] show ?case
    by (auto simp: signerKeys_def programKeys_def accountKeys_def)
qed

lemma keySets_props:
  "keySets ixs funder = (us, ps, el) \<Longrightarrow>
   set us = insert funder (set (signerKeys ixs)) \<and> set ps = set (programKeys ixs)
   \<and> set el = set (accountKeys ixs) \<and> distinct us \<and> distinct ps \<and> distinct el"
  unfolding keySets_def by (drule fold_collectIx) auto

lemma fold_ixSize: "fold (\<lambda>ixw acc. acc + ixSize ixw) ixs a = a + sum_list (map ixSize ixs)"
  by (induction ixs arbitrary: a) auto

subsection \<open>The candidate loop and the selector\<close>

text \<open>
  One step of the loop in terms of the candidate's projected size. The recursive
  equations are taken out of the simplifier's rules and applied by hand.
\<close>

lemma scanLuts_Cons:
  "scanLuts sas lc inc rem i (lut # rest) (bR, bS, bI, bX) =
     (if candidateSize sas lc inc rem lut < MAX_TRANSACTION_SIZE
      then Inl (candidateSize sas lc inc rem lut, snd lut,
                inc + candidateCount rem lut + length (candidateRemaining rem lut))
      else if candidateSize sas lc inc rem lut < bS
      then scanLuts sas lc inc rem (Suc i) rest
             (candidateRemaining rem lut, candidateSize sas lc inc rem lut,
              inc + candidateCount rem lut, i)
      else scanLuts sas lc inc rem (Suc i) rest (bR, bS, bI, bX))"
  by (simp add: candidateSize_def candidateCount_def candidateRemaining_def Let_def
           split: prod.splits)

declare scanLuts.simps(2) [simp del]

declare findBestLookupTables.simps [simp del]

lemma containedInLUTCount_fold:
  "fold (\<lambda>k (includedCount, notIncluded).
             if k \<in> set lta then (includedCount + 1, notIncluded)
             else (includedCount, set_add k notIncluded)) ks (c0, n0) = (c, n)
   \<Longrightarrow> distinct (n0 @ ks) \<Longrightarrow> distinct n \<and> c + length n = c0 + length n0 + length ks
        \<and> set n = set n0 \<union> (set ks - set lta)"
proof (induction ks arbitrary: c0 n0)
  case Nil
  then show ?case by simp
next
  case (Cons k ks)
  show ?case
  proof (cases "k \<in> set lta")
    case True
    with Cons.prems(1) have f: "fold (\<lambda>k (includedCount, notIncluded).
             if k \<in> set lta then (includedCount + 1, notIncluded)
             else (includedCount, set_add k notIncluded)) ks (c0 + 1, n0) = (c, n)"
      by simp
    from Cons.prems(2) have "distinct (n0 @ ks)" by simp
    from Cons.IH [OF f this] True show ?thesis by auto
  next
    case False
    with Cons.prems(1) have f: "fold (\<lambda>k (includedCount, notIncluded).
             if k \<in> set lta then (includedCount + 1, notIncluded)
             else (includedCount, set_add k notIncluded)) ks (c0, set_add k n0) = (c, n)"
      by simp
    from Cons.prems(2) have k: "k \<notin> set n0" and d: "distinct ((n0 @ [k]) @ ks)" by auto
    from k have s: "set_add k n0 = n0 @ [k]" by (simp add: set_add_def)
    from Cons.IH [OF f [unfolded s] d] False show ?thesis by auto
  qed
qed

lemma candidate_props:
  assumes "distinct rem"
  shows "distinct (candidateRemaining rem lut)"
    and "candidateCount rem lut + length (candidateRemaining rem lut) = length rem"
    and "set (candidateRemaining rem lut) = set rem - set (fst lut)"
proof -
  obtain c n where cn: "containedInLUTCount rem (fst lut) = (c, n)"
    by (cases "containedInLUTCount rem (fst lut)")
  from cn [unfolded containedInLUTCount_def] assms
  have "distinct n \<and> c + length n = 0 + length ([]::pubkey list) + length rem
        \<and> set n = set [] \<union> (set rem - set (fst lut))"
    by (intro containedInLUTCount_fold) auto
  with cn show "distinct (candidateRemaining rem lut)"
    and "candidateCount rem lut + length (candidateRemaining rem lut) = length rem"
    and "set (candidateRemaining rem lut) = set rem - set (fst lut)"
    by (simp_all add: candidateCount_def candidateRemaining_def)
qed

lemma scanLuts_Inr_inv:
  "scanLuts sas lc inc rem i luts (bR, bS, bI, bX) = Inr (r, s, n, x) \<Longrightarrow> distinct rem
   \<Longrightarrow> distinct bR \<Longrightarrow> bI + length bR = inc + length rem
   \<Longrightarrow> distinct r \<and> n + length r = inc + length rem \<and> s \<le> bS"
proof (induction luts arbitrary: i bR bS bI bX)
  case Nil
  then show ?case by simp
next
  case (Cons lut rest)
  note cp = candidate_props [OF Cons.prems(2), of lut]
  show ?case
  proof (cases "candidateSize sas lc inc rem lut < MAX_TRANSACTION_SIZE")
    case True
    with Cons.prems(1) show ?thesis by (simp add: scanLuts_Cons)
  next
    case na: False
    show ?thesis
    proof (cases "candidateSize sas lc inc rem lut < bS")
      case True
      with na Cons.prems(1)
      have "scanLuts sas lc inc rem (Suc i) rest
             (candidateRemaining rem lut, candidateSize sas lc inc rem lut,
              inc + candidateCount rem lut, i) = Inr (r, s, n, x)"
        by (simp add: scanLuts_Cons)
      from Cons.IH [OF this Cons.prems(2) cp(1)] cp(2) True show ?thesis by simp
    next
      case False
      with na Cons.prems(1)
      have "scanLuts sas lc inc rem (Suc i) rest (bR, bS, bI, bX) = Inr (r, s, n, x)"
        by (simp add: scanLuts_Cons)
      from Cons.IH [OF this Cons.prems(2,3,4)] show ?thesis by simp
    qed
  qed
qed

lemma scanLuts_Inl_inv:
  "scanLuts sas lc inc rem i luts best = Inl (s, l, u) \<Longrightarrow> distinct rem
   \<Longrightarrow> u = inc + length rem \<and> s < MAX_TRANSACTION_SIZE"
proof (induction luts arbitrary: i best)
  case Nil
  then show ?case by simp
next
  case (Cons lut rest)
  obtain bR bS bI bX where b: "best = (bR, bS, bI, bX)" by (cases best)
  note cp = candidate_props [OF Cons.prems(2), of lut]
  show ?case
  proof (cases "candidateSize sas lc inc rem lut < MAX_TRANSACTION_SIZE")
    case True
    with Cons.prems(1) cp(2) show ?thesis by (auto simp add: scanLuts_Cons b)
  next
    case na: False
    with Cons.prems(1) b Cons.IH Cons.prems(2) show ?thesis
      by (auto simp: scanLuts_Cons split: if_splits)
  qed
qed

lemma findBest_tables_prefix:
  "\<exists>ys. lookupTables (findBestLookupTables sas sz lc inc rem used luts) = used @ ys"
proof (induction sas sz lc inc rem used luts rule: findBestLookupTables.induct)
  case (1 sas sz lc inc rem used luts)
  show ?case
  proof (cases "luts = []")
    case True
    then show ?thesis by (simp add: findBestLookupTables.simps)
  next
    case ne: False
    show ?thesis
    proof (cases "scanLuts sas lc inc rem 0 luts (rem, sz, inc, 0)")
      case (Inl a)
      obtain s l u where "a = (s, l, u)" by (cases a)
      with Inl ne show ?thesis
        by (subst findBestLookupTables.simps) simp
    next
      case (Inr b)
      obtain bR bS bI bX where b: "b = (bR, bS, bI, bX)" by (cases b)
      show ?thesis
      proof (cases "sz = bS")
        case True
        with Inr b ne show ?thesis by (subst findBestLookupTables.simps) simp
      next
        case False
        from "1.IH" [OF ne Inr [unfolded b] refl refl refl False]
        obtain ys where "lookupTables (findBestLookupTables sas bS (lc + 1) bI bR
             (used @ [snd (luts ! bX)]) (take bX luts @ drop (Suc bX) luts))
            = (used @ [snd (luts ! bX)]) @ ys" by blast
        with Inr b ne False show ?thesis by (subst findBestLookupTables.simps) simp
      qed
    qed
  qed
qed

lemma findBest_inv:
  "distinct rem \<Longrightarrow>
   uniqueKeyCount (findBestLookupTables sas sz lc inc rem used luts) = inc + length rem
   \<and> (lookupTables (findBestLookupTables sas sz lc inc rem used luts) = []
        \<longrightarrow> size' (findBestLookupTables sas sz lc inc rem used luts) = sz)"
proof (induction sas sz lc inc rem used luts rule: findBestLookupTables.induct)
  case (1 sas sz lc inc rem used luts)
  show ?case
  proof (cases "luts = []")
    case True
    then show ?thesis by (simp add: findBestLookupTables.simps)
  next
    case ne: False
    show ?thesis
    proof (cases "scanLuts sas lc inc rem 0 luts (rem, sz, inc, 0)")
      case (Inl a)
      obtain s l u where a: "a = (s, l, u)" by (cases a)
      have eq: "findBestLookupTables sas sz lc inc rem used luts =
          \<lparr>size' = s, lookupTables = used @ [l], uniqueKeyCount = u\<rparr>"
        using Inl a ne by (subst findBestLookupTables.simps) simp
      from scanLuts_Inl_inv [OF Inl [unfolded a] "1.prems"]
      have u: "u = inc + length rem" and sm: "s < MAX_TRANSACTION_SIZE" by auto
      with eq u show ?thesis by auto
    next
      case (Inr b)
      obtain bR bS bI bX where b: "b = (bR, bS, bI, bX)" by (cases b)
      from scanLuts_Inr_inv [OF Inr [unfolded b] "1.prems" "1.prems"]
      have inv: "distinct bR" "bI + length bR = inc + length rem" "bS \<le> sz" by auto
      show ?thesis
      proof (cases "sz = bS")
        case True
        with Inr b ne show ?thesis by (subst (1 2 3) findBestLookupTables.simps) simp
      next
        case False
        have eq: "findBestLookupTables sas sz lc inc rem used luts =
          findBestLookupTables sas bS (lc + 1) bI bR
             (used @ [snd (luts ! bX)]) (take bX luts @ drop (Suc bX) luts)"
          using Inr b ne False by (subst findBestLookupTables.simps) simp
        from findBest_tables_prefix [of sas bS "lc + 1" bI bR "used @ [snd (luts ! bX)]" "take bX luts @ drop (Suc bX) luts"]
        have "lookupTables (findBestLookupTables sas bS (lc + 1) bI bR
             (used @ [snd (luts ! bX)]) (take bX luts @ drop (Suc bX) luts)) \<noteq> []" by auto
        with "1.IH" [OF ne Inr [unfolded b] refl refl refl False inv(1)] inv eq
        show ?thesis by simp
      qed
    qed
  qed
qed

subsection \<open>The estimator against the size formula\<close>

text \<open>
  \<open>getTransactionSize\<close> returns the baseline of the specification, unless the
  baseline is over the budget, tables are supplied and the keys are at most 128: then
  it returns what the selector finds, started from the baseline.
\<close>

lemma lengthToCompact16size_eq: "lengthToCompact16size n = compact_length_of n"
  by (simp add: lengthToCompact16size_def compact_length_of_def)

lemma sum_ixSize:
  "sum_list (map ixSize ixs) =
     (\<Sum>ixw\<leftarrow>ixs. 1 + compact_length_of (length (keys (instruction ixw)))
                     + length (keys (instruction ixw))
                     + compact_length_of (length (data (instruction ixw)))
                     + length (data (instruction ixw)))"
  by (induction ixs) (simp_all add: ixSize_def lengthToCompact16size_eq)

lemma getTransactionSize_cases:
  obtains E A where "distinct E"
    and "A + length E = spec_staticKeyCount ixs funder"
    and "\<And>luts. getTransactionSize ixs funder luts =
          (if spec_baselineSize ixs funder \<le> MAX_TRANSACTION_SIZE \<or> luts = []
              \<or> spec_staticKeyCount ixs funder > MAX_UNIQUE_KEYS_COUNT
           then \<lparr>size' = spec_baselineSize ixs funder, lookupTables = [],
                 uniqueKeyCount = spec_staticKeyCount ixs funder\<rparr>
           else findBestLookupTables
                  \<lparr>staticSize = spec_staticRegion ixs funder, staticAccounts = A\<rparr>
                  (spec_baselineSize ixs funder) 0 0 E [] luts)"
proof -
  obtain us ps el where ks: "keySets ixs funder = (us, ps, el)"
    by (cases "keySets ixs funder") auto
  note kp = keySets_props [OF ks]
  define E where "E = fold set_delete ps (fold set_delete us el)"
  define I where "I = new_Set (us @ ps)"
  have dE: "distinct E" using kp by (simp add: E_def)
  have sE: "set E = set el - set us - set ps" by (auto simp: E_def)
  have dI: "distinct I" by (simp add: I_def)
  have sI: "set I = set us \<union> set ps" by (simp add: I_def)
  have lus: "length us = spec_signerCount ixs funder"
    using kp by (simp add: spec_signerCount_def distinct_card [symmetric])
  have "set I \<inter> set E = {}" using sE sI by auto
  then have "length I + length E = card (set I \<union> set E)"
    using dE dI by (simp add: distinct_card card_Un_disjoint)
  also have "set I \<union> set E = set (funder # signerKeys ixs @ programKeys ixs @ accountKeys ixs)"
    using sE sI kp by auto
  finally have cnt: "length I + length E = spec_staticKeyCount ixs funder"
    by (simp add: spec_staticKeyCount_def)
  have region: "lengthToCompact16size (length us) + length us * 64 + 3 + 32 + 1
                 + lengthToCompact16size (length ixs)
                 + fold (\<lambda>ixw acc. acc + ixSize ixw) ixs 0 + 1 = spec_staticRegion ixs funder"
    by (simp add: lus spec_staticRegion_def fold_ixSize sum_ixSize lengthToCompact16size_eq)
  have base: "totalSize \<lparr>staticSize = spec_staticRegion ixs funder, staticAccounts = length I\<rparr>
                0 0 (length E) = spec_baselineSize ixs funder"
    by (simp add: totalSize_def Let_def cnt spec_baselineSize_def lengthToCompact16size_eq)
  have "getTransactionSize ixs funder luts =
          (if spec_baselineSize ixs funder \<le> MAX_TRANSACTION_SIZE \<or> luts = []
              \<or> spec_staticKeyCount ixs funder > MAX_UNIQUE_KEYS_COUNT
           then \<lparr>size' = spec_baselineSize ixs funder, lookupTables = [],
                 uniqueKeyCount = spec_staticKeyCount ixs funder\<rparr>
           else findBestLookupTables
                  \<lparr>staticSize = spec_staticRegion ixs funder, staticAccounts = length I\<rparr>
                  (spec_baselineSize ixs funder) 0 0 E [] luts)" for luts
    unfolding getTransactionSize_def ks prod.case Let_def E_def [symmetric] I_def [symmetric]
      region base cnt
    by simp
  with dE cnt show thesis by (rule that)
qed

lemma baseline_ge: "32 * spec_staticKeyCount ixs funder < spec_baselineSize ixs funder"
  by (simp add: spec_baselineSize_def spec_staticRegion_def)

lemma getTransactionSize_nil_tables:
  "lookupTables (getTransactionSize ixs funder luts) = []
   \<Longrightarrow> size' (getTransactionSize ixs funder luts) = spec_baselineSize ixs funder"
proof -
  assume a: "lookupTables (getTransactionSize ixs funder luts) = []"
  obtain E A where dE: "distinct E"
    and eq: "\<And>luts. getTransactionSize ixs funder luts =
          (if spec_baselineSize ixs funder \<le> MAX_TRANSACTION_SIZE \<or> luts = []
              \<or> spec_staticKeyCount ixs funder > MAX_UNIQUE_KEYS_COUNT
           then \<lparr>size' = spec_baselineSize ixs funder, lookupTables = [],
                 uniqueKeyCount = spec_staticKeyCount ixs funder\<rparr>
           else findBestLookupTables
                  \<lparr>staticSize = spec_staticRegion ixs funder, staticAccounts = A\<rparr>
                  (spec_baselineSize ixs funder) 0 0 E [] luts)"
    by (rule getTransactionSize_cases [of ixs funder]) blast
  show ?thesis
  proof (cases "spec_baselineSize ixs funder \<le> MAX_TRANSACTION_SIZE \<or> luts = []
              \<or> spec_staticKeyCount ixs funder > MAX_UNIQUE_KEYS_COUNT")
    case True
    then show ?thesis by (simp add: eq)
  next
    case False
    with a findBest_inv [OF dE, of "\<lparr>staticSize = spec_staticRegion ixs funder, staticAccounts = A\<rparr>"
        "spec_baselineSize ixs funder" 0 0 "[]" luts]
    show ?thesis by (simp add: eq)
  qed
qed

lemma getTransactionSize_keys_le:
  "uniqueKeyCount (getTransactionSize ixs funder luts) \<le> spec_staticKeyCount ixs funder"
proof -
  obtain E A where dE: "distinct E" and cnt: "A + length E = spec_staticKeyCount ixs funder"
    and eq: "\<And>luts. getTransactionSize ixs funder luts =
          (if spec_baselineSize ixs funder \<le> MAX_TRANSACTION_SIZE \<or> luts = []
              \<or> spec_staticKeyCount ixs funder > MAX_UNIQUE_KEYS_COUNT
           then \<lparr>size' = spec_baselineSize ixs funder, lookupTables = [],
                 uniqueKeyCount = spec_staticKeyCount ixs funder\<rparr>
           else findBestLookupTables
                  \<lparr>staticSize = spec_staticRegion ixs funder, staticAccounts = A\<rparr>
                  (spec_baselineSize ixs funder) 0 0 E [] luts)"
    by (rule getTransactionSize_cases [of ixs funder]) blast
  from findBest_inv [OF dE, of "\<lparr>staticSize = spec_staticRegion ixs funder, staticAccounts = A\<rparr>"
        "spec_baselineSize ixs funder" 0 0 "[]" luts] cnt
  show ?thesis by (simp add: eq)
qed

lemma getTransactionSize_keys_imp_size:
  assumes "uniqueKeyCount (getTransactionSize ixs funder luts) > MAX_UNIQUE_KEYS_COUNT"
  shows "size' (getTransactionSize ixs funder luts) > MAX_TRANSACTION_SIZE"
proof -
  obtain E A where dE: "distinct E" and cnt: "A + length E = spec_staticKeyCount ixs funder"
    and eq: "\<And>luts. getTransactionSize ixs funder luts =
          (if spec_baselineSize ixs funder \<le> MAX_TRANSACTION_SIZE \<or> luts = []
              \<or> spec_staticKeyCount ixs funder > MAX_UNIQUE_KEYS_COUNT
           then \<lparr>size' = spec_baselineSize ixs funder, lookupTables = [],
                 uniqueKeyCount = spec_staticKeyCount ixs funder\<rparr>
           else findBestLookupTables
                  \<lparr>staticSize = spec_staticRegion ixs funder, staticAccounts = A\<rparr>
                  (spec_baselineSize ixs funder) 0 0 E [] luts)"
    by (rule getTransactionSize_cases [of ixs funder]) blast
  from assms getTransactionSize_keys_le [of ixs funder luts]
  have big: "spec_staticKeyCount ixs funder > MAX_UNIQUE_KEYS_COUNT" by simp
  with baseline_ge [of ixs funder] show ?thesis
    by (simp add: eq MAX_UNIQUE_KEYS_COUNT_def MAX_TRANSACTION_SIZE_def)
qed

subsection \<open>The packing loop\<close>

lemma deepCopyInstructions_id [simp]: "deepCopyInstructions b = b"
proof -
  have "map (\<lambda>entry. entry\<lparr>instruction :=
               \<lparr>keys = map (\<lambda>k. k) (keys (instruction entry)),
                programId = programId (instruction entry),
                data = data (instruction entry)\<rparr>\<rparr>) xs = xs" for xs :: "'a instruction_with_signers list"
    by (induction xs) simp_all
  then show ?thesis by (simp add: deepCopyInstructions_def)
qed

lemma stripScaffold_sandwich [simp]: "stripScaffold b a (b @ m @ a) = m"
  by (simp add: stripScaffold_def)

lemma insert_arr_sandwich:
  "insert_arr (b @ m @ a) (length (b @ m @ a) - length a) x = b @ (m @ [x]) @ a"
  by (simp add: insert_arr_def)

lemma set_insert_arr: "set (insert_arr xs k x) = insert x (set xs)"
proof -
  have "set (take k xs) \<union> set (drop k xs) = set xs"
    by (metis append_take_drop_id set_append)
  then show ?thesis by (auto simp: insert_arr_def)
qed

lemma length_insert_arr: "length (insert_arr xs k x) = Suc (length xs)"
  by (simp add: insert_arr_def)

lemma packLoop_Cons:
  "packLoop funder b a lta m (ix # rest) current outp =
     (if withinBudget (getTransactionSize
            (insert_arr (instructions current) (length (instructions current) - length a) ix)
            funder lta)
         \<and> length (insert_arr (instructions current) (length (instructions current) - length a) ix) \<le> m
      then packLoop funder b a lta m rest
             \<lparr>instructions = insert_arr (instructions current)
                               (length (instructions current) - length a) ix,
              lookupTables' = lookupTables (getTransactionSize
                (insert_arr (instructions current) (length (instructions current) - length a) ix)
                funder lta)\<rparr> outp
      else if size' (getTransactionSize (b @ [ix] @ a) funder lta) > MAX_TRANSACTION_SIZE
      then Inl (err_ix_size @ programId (instruction ix))
      else if uniqueKeyCount (getTransactionSize (b @ [ix] @ a) funder lta) > MAX_UNIQUE_KEYS_COUNT
      then Inl (err_ix_keys @ programId (instruction ix))
      else packLoop funder b a lta m rest
             \<lparr>instructions = b @ [ix] @ a,
              lookupTables' = lookupTables (getTransactionSize (b @ [ix] @ a) funder lta)\<rparr>
             (outp @ [current]))"
  by (auto simp: Let_def withinBudget_def)

declare packLoop.simps(2) [simp del]

lemma packLoop_append:
  "packLoop funder b a lta m (xs @ ys) current outp =
     (case packLoop funder b a lta m xs current outp of
        Inl e \<Rightarrow> Inl e
      | Inr (c, out) \<Rightarrow> packLoop funder b a lta m ys c out)"
  by (induction xs arbitrary: current outp) (simp_all add: packLoop_Cons)

lemma packLoop_ok:
  "\<forall>ix \<in> set ixs. withinBudget (getTransactionSize (b @ [ix] @ a) funder lta)
   \<Longrightarrow> \<exists>c out. packLoop funder b a lta m ixs current outp = Inr (c, out)"
proof (induction ixs arbitrary: current outp)
  case Nil
  then show ?case by simp
next
  case (Cons ix rest)
  from Cons.prems have w: "withinBudget (getTransactionSize (b @ [ix] @ a) funder lta)"
    and r: "\<forall>ix \<in> set rest. withinBudget (getTransactionSize (b @ [ix] @ a) funder lta)"
    by simp_all
  from w have "\<not> size' (getTransactionSize (b @ [ix] @ a) funder lta) > MAX_TRANSACTION_SIZE"
    "\<not> uniqueKeyCount (getTransactionSize (b @ [ix] @ a) funder lta) > MAX_UNIQUE_KEYS_COUNT"
    by (simp_all add: withinBudget_def)
  with Cons.IH [OF r] show ?case by (simp add: packLoop_Cons)
qed

lemma packLoop_shape:
  "packLoop funder b a lta m ixs current outp = Inr (c, out)
   \<Longrightarrow> instructions current = b @ mid @ a
   \<Longrightarrow> \<exists>mid' new. instructions c = b @ mid' @ a \<and> out = outp @ new
        \<and> (\<forall>x \<in> set new. \<exists>m'. instructions x = b @ m' @ a)
        \<and> concat (map (\<lambda>x. stripScaffold b a (instructions x)) new) @ mid' = mid @ ixs"
proof (induction ixs arbitrary: current outp mid)
  case Nil
  then show ?case by auto
next
  case (Cons ix rest)
  let ?next = "insert_arr (instructions current) (length (instructions current) - length a) ix"
  have nx: "?next = b @ (mid @ [ix]) @ a"
    using insert_arr_sandwich [of b mid a ix] Cons.prems(2) by simp
  show ?case
  proof (cases "withinBudget (getTransactionSize ?next funder lta) \<and> length ?next \<le> m")
    case True
    with Cons.prems(1)
    have "packLoop funder b a lta m rest
            \<lparr>instructions = ?next, lookupTables' = lookupTables (getTransactionSize ?next funder lta)\<rparr>
            outp = Inr (c, out)"
      by (simp add: packLoop_Cons)
    from Cons.IH [OF this, of "mid @ [ix]"] nx show ?thesis by simp
  next
    case False
    with Cons.prems(1)
    have "packLoop funder b a lta m rest
             \<lparr>instructions = b @ [ix] @ a,
              lookupTables' = lookupTables (getTransactionSize (b @ [ix] @ a) funder lta)\<rparr>
             (outp @ [current]) = Inr (c, out)"
      by (simp add: packLoop_Cons split: if_splits)
    from Cons.IH [OF this, of "[ix]"]
    have "\<exists>mid' new. instructions c = b @ mid' @ a \<and> out = (outp @ [current]) @ new
        \<and> (\<forall>x \<in> set new. \<exists>m'. instructions x = b @ m' @ a)
        \<and> concat (map (\<lambda>x. stripScaffold b a (instructions x)) new) @ mid' = [ix] @ rest"
      by simp
    then obtain mid' new where h: "instructions c = b @ mid' @ a" "out = (outp @ [current]) @ new"
      "\<forall>x \<in> set new. \<exists>m'. instructions x = b @ m' @ a"
      "concat (map (\<lambda>x. stripScaffold b a (instructions x)) new) @ mid' = [ix] @ rest"
      by blast
    show ?thesis
      apply (rule exI [of _ mid'], rule exI [of _ "current # new"])
      using h Cons.prems(2) by auto
  qed
qed

lemma packLoop_budget:
  "packLoop funder b a lta m ixs current outp = Inr (c, out)
   \<Longrightarrow> batchOk funder lta current \<Longrightarrow> \<forall>x \<in> set outp. batchOk funder lta x
   \<Longrightarrow> batchOk funder lta c \<and> (\<forall>x \<in> set out. batchOk funder lta x)"
proof (induction ixs arbitrary: current outp)
  case Nil
  then show ?case by auto
next
  case (Cons ix rest)
  let ?next = "insert_arr (instructions current) (length (instructions current) - length a) ix"
  show ?case
  proof (cases "withinBudget (getTransactionSize ?next funder lta) \<and> length ?next \<le> m")
    case True
    with Cons.prems(1)
    have p: "packLoop funder b a lta m rest
            \<lparr>instructions = ?next, lookupTables' = lookupTables (getTransactionSize ?next funder lta)\<rparr>
            outp = Inr (c, out)"
      by (simp add: packLoop_Cons)
    from True have "batchOk funder lta
        \<lparr>instructions = ?next, lookupTables' = lookupTables (getTransactionSize ?next funder lta)\<rparr>"
      by (simp add: batchOk_def)
    from Cons.IH [OF p this Cons.prems(3)] show ?thesis .
  next
    case False
    with Cons.prems(1)
    have p: "packLoop funder b a lta m rest
             \<lparr>instructions = b @ [ix] @ a,
              lookupTables' = lookupTables (getTransactionSize (b @ [ix] @ a) funder lta)\<rparr>
             (outp @ [current]) = Inr (c, out)"
      and w: "withinBudget (getTransactionSize (b @ [ix] @ a) funder lta)"
      by (simp_all add: packLoop_Cons withinBudget_def split: if_splits)
    from w have ok: "batchOk funder lta \<lparr>instructions = b @ [ix] @ a,
              lookupTables' = lookupTables (getTransactionSize (b @ [ix] @ a) funder lta)\<rparr>"
      by (simp add: batchOk_def)
    from Cons.prems(2,3) have "\<forall>x \<in> set (outp @ [current]). batchOk funder lta x" by simp
    from Cons.IH [OF p ok this] show ?thesis .
  qed
qed

subsection \<open>What the candidate loop returns\<close>

lemma scanLuts_no_improvement:
  "\<forall>l \<in> set luts. MAX_TRANSACTION_SIZE \<le> candidateSize sas lc inc rem l \<and> bS \<le> candidateSize sas lc inc rem l
   \<Longrightarrow> scanLuts sas lc inc rem i luts (bR, bS, bI, bX) = Inr (bR, bS, bI, bX)"
  by (induction luts arbitrary: i) (simp_all add: scanLuts_Cons)

lemma scanLuts_best:
  "\<forall>l \<in> set luts. MAX_TRANSACTION_SIZE \<le> candidateSize sas lc inc rem l
   \<Longrightarrow> k < length luts
   \<Longrightarrow> candidateSize sas lc inc rem (luts ! k) < bS
   \<Longrightarrow> \<forall>j < length luts. candidateSize sas lc inc rem (luts ! k) \<le> candidateSize sas lc inc rem (luts ! j)
   \<Longrightarrow> \<forall>j < k. candidateSize sas lc inc rem (luts ! k) < candidateSize sas lc inc rem (luts ! j)
   \<Longrightarrow> scanLuts sas lc inc rem i luts (bR, bS, bI, bX) =
         Inr (candidateRemaining rem (luts ! k), candidateSize sas lc inc rem (luts ! k),
              inc + candidateCount rem (luts ! k), i + k)"
proof (induction luts arbitrary: i k bR bS bI bX)
  case Nil
  then show ?case by simp
next
  case (Cons l rest)
  from Cons.prems(1) have na: "\<not> candidateSize sas lc inc rem l < MAX_TRANSACTION_SIZE"
    and nar: "\<forall>l \<in> set rest. MAX_TRANSACTION_SIZE \<le> candidateSize sas lc inc rem l"
    by auto
  show ?case
  proof (cases k)
    case 0
    with Cons.prems(3) have lt: "candidateSize sas lc inc rem l < bS" by simp
    from 0 Cons.prems(4) have "\<forall>j < length rest. candidateSize sas lc inc rem l \<le> candidateSize sas lc inc rem (rest ! j)"
      by auto
    then have "\<forall>x \<in> set rest. candidateSize sas lc inc rem l \<le> candidateSize sas lc inc rem x"
      by (metis in_set_conv_nth)
    with nar have "scanLuts sas lc inc rem (Suc i) rest
        (candidateRemaining rem l, candidateSize sas lc inc rem l, inc + candidateCount rem l, i)
       = Inr (candidateRemaining rem l, candidateSize sas lc inc rem l, inc + candidateCount rem l, i)"
      by (intro scanLuts_no_improvement) auto
    with na lt 0 show ?thesis by (simp add: scanLuts_Cons)
  next
    case (Suc k')
    with Cons.prems(2) have k': "k' < length rest" by simp
    from Suc Cons.prems(5) have less: "candidateSize sas lc inc rem (rest ! k') < candidateSize sas lc inc rem l"
      by auto
    from Suc Cons.prems(4) have mn: "\<forall>j < length rest. candidateSize sas lc inc rem (rest ! k') \<le> candidateSize sas lc inc rem (rest ! j)"
      by auto
    from Suc Cons.prems(5) have fs: "\<forall>j < k'. candidateSize sas lc inc rem (rest ! k') < candidateSize sas lc inc rem (rest ! j)"
      by auto
    from Suc Cons.prems(3) have ltb: "candidateSize sas lc inc rem (rest ! k') < bS" by simp
    show ?thesis
    proof (cases "candidateSize sas lc inc rem l < bS")
      case True
      from Cons.IH [OF nar k' less mn fs, of "Suc i" "candidateRemaining rem l" "inc + candidateCount rem l" i]
        na True Suc show ?thesis by (simp add: scanLuts_Cons)
    next
      case False
      from Cons.IH [OF nar k' ltb mn fs, of "Suc i" bR bI bX]
        na False Suc show ?thesis by (simp add: scanLuts_Cons)
    qed
  qed
qed

lemma scanLuts_accept:
  "\<forall>l \<in> set pre. MAX_TRANSACTION_SIZE \<le> candidateSize sas lc inc rem l
   \<Longrightarrow> candidateSize sas lc inc rem c < MAX_TRANSACTION_SIZE
   \<Longrightarrow> scanLuts sas lc inc rem i (pre @ c # post) best =
        Inl (candidateSize sas lc inc rem c, snd c,
             inc + candidateCount rem c + length (candidateRemaining rem c))"
proof (induction pre arbitrary: i best)
  case Nil
  obtain bR bS bI bX where "best = (bR, bS, bI, bX)" by (cases best)
  with Nil show ?case by (simp add: scanLuts_Cons)
next
  case (Cons l pre)
  obtain bR bS bI bX where "best = (bR, bS, bI, bX)" by (cases best)
  with Cons show ?case by (simp add: scanLuts_Cons)
qed

lemma findBest_accept_first_below:
  assumes "\<forall>l \<in> set pre. MAX_TRANSACTION_SIZE \<le> candidateSize sas lc inc rem l"
    and "candidateSize sas lc inc rem c < MAX_TRANSACTION_SIZE"
  shows "findBestLookupTables sas sz lc inc rem used (pre @ c # post) =
          \<lparr>size' = candidateSize sas lc inc rem c, lookupTables = used @ [snd c],
           uniqueKeyCount = inc + candidateCount rem c + length (candidateRemaining rem c)\<rparr>"
  by (subst findBestLookupTables.simps) (simp add: scanLuts_accept [OF assms])

subsection \<open>Budgets of the emitted batches, single batches, too many keys\<close>

lemma pack_batches_within_size_and_keys:
  assumes "buildDynamicTransactionsNoSigning ixs funder beforeIxs afterIxs luts m = Inr batches"
  shows "\<forall>x \<in> set batches. batchOk funder (buildLookupTableSet luts) x"
proof -
  let ?lta = "buildLookupTableSet luts"
  let ?init = "\<lparr>instructions = beforeIxs @ afterIxs,
                lookupTables' = lookupTables (getTransactionSize (beforeIxs @ afterIxs) funder ?lta)\<rparr>"
  from assms have sc: "withinBudget (getTransactionSize (beforeIxs @ afterIxs) funder ?lta)"
    by (auto simp: buildDynamicTransactionsNoSigning_def withinBudget_def Let_def split: if_splits)
  then have i: "batchOk funder ?lta ?init" by (simp add: batchOk_def)
  from assms sc obtain c out where p: "packLoop funder beforeIxs afterIxs ?lta m ixs ?init [] = Inr (c, out)"
    and r: "batches = (if length (instructions c) > length beforeIxs + length afterIxs then out @ [c] else out)"
    by (auto simp: buildDynamicTransactionsNoSigning_def withinBudget_def Let_def
             split: if_splits sum.splits)
  from packLoop_budget [OF p i] have "batchOk funder ?lta c \<and> (\<forall>x \<in> set out. batchOk funder ?lta x)"
    by simp
  with r show ?thesis by auto
qed

lemma packLoop_all_fit:
  "\<forall>n \<in> {1..length ixs}. withinBudget (getTransactionSize (b @ mid @ take n ixs @ a) funder lta)
                          \<and> length (b @ mid @ take n ixs @ a) \<le> m
   \<Longrightarrow> instructions current = b @ mid @ a
   \<Longrightarrow> ixs \<noteq> []
   \<Longrightarrow> packLoop funder b a lta m ixs current outp =
        Inr (\<lparr>instructions = b @ mid @ ixs @ a,
              lookupTables' = lookupTables (getTransactionSize (b @ mid @ ixs @ a) funder lta)\<rparr>, outp)"
proof (induction ixs arbitrary: mid current)
  case Nil
  then show ?case by simp
next
  case (Cons ix rest)
  let ?next = "insert_arr (instructions current) (length (instructions current) - length a) ix"
  have nx: "?next = b @ (mid @ [ix]) @ a"
    using insert_arr_sandwich [of b mid a ix] Cons.prems(2) by simp
  from Cons.prems(1) have "withinBudget (getTransactionSize (b @ mid @ take 1 (ix # rest) @ a) funder lta)
                          \<and> length (b @ mid @ take 1 (ix # rest) @ a) \<le> m"
    by (intro bspec [OF Cons.prems(1)]) simp
  then have fit: "withinBudget (getTransactionSize ?next funder lta) \<and> length ?next \<le> m"
    by (simp add: nx)
  then have step: "packLoop funder b a lta m (ix # rest) current outp =
     packLoop funder b a lta m rest
       \<lparr>instructions = b @ (mid @ [ix]) @ a,
        lookupTables' = lookupTables (getTransactionSize (b @ (mid @ [ix]) @ a) funder lta)\<rparr> outp"
    by (subst packLoop_Cons) (simp add: nx)
  show ?case
  proof (cases "rest = []")
    case True
    with step show ?thesis by simp
  next
    case False
    have "\<forall>n \<in> {1..length rest}. withinBudget (getTransactionSize (b @ (mid @ [ix]) @ take n rest @ a) funder lta)
                          \<and> length (b @ (mid @ [ix]) @ take n rest @ a) \<le> m"
    proof
      fix n assume "n \<in> {1..length rest}"
      then have "Suc n \<in> {1..length (ix # rest)}" by simp
      from bspec [OF Cons.prems(1) this] show "withinBudget (getTransactionSize (b @ (mid @ [ix]) @ take n rest @ a) funder lta)
                          \<and> length (b @ (mid @ [ix]) @ take n rest @ a) \<le> m" by simp
    qed
    from Cons.IH [OF this _ False, of "\<lparr>instructions = b @ (mid @ [ix]) @ a,
        lookupTables' = lookupTables (getTransactionSize (b @ (mid @ [ix]) @ a) funder lta)\<rparr>"] step
    show ?thesis by simp
  qed
qed

lemma staticKeyCount_mono:
  assumes "set xs \<subseteq> set ys"
  shows "spec_staticKeyCount xs funder \<le> spec_staticKeyCount ys funder"
proof -
  from assms have "set (funder # signerKeys xs @ programKeys xs @ accountKeys xs)
      \<subseteq> set (funder # signerKeys ys @ programKeys ys @ accountKeys ys)"
    by (auto simp: signerKeys_def programKeys_def accountKeys_def)
  then show ?thesis unfolding spec_staticKeyCount_def by (intro card_mono) auto
qed

lemma getTransactionSize_no_tables:
  "getTransactionSize ixs funder [] =
     \<lparr>size' = spec_baselineSize ixs funder, lookupTables = [],
      uniqueKeyCount = spec_staticKeyCount ixs funder\<rparr>"
  by (rule getTransactionSize_cases [of ixs funder]) simp

lemma packLoop_too_many_keys:
  "ix \<in> set ixs \<Longrightarrow> spec_staticKeyCount (b @ [ix] @ a) funder > MAX_UNIQUE_KEYS_COUNT
   \<Longrightarrow> set (b @ a) \<subseteq> set (instructions current)
   \<Longrightarrow> \<exists>e. packLoop funder b a [] m ixs current outp = Inl e"
proof (induction ixs arbitrary: current outp)
  case Nil
  then show ?case by simp
next
  case (Cons x rest)
  let ?next = "insert_arr (instructions current) (length (instructions current) - length a) x"
  have sub: "set (b @ [x] @ a) \<subseteq> set ?next" using Cons.prems(3) by (auto simp: set_insert_arr)
  show ?case
  proof (cases "x = ix")
    case True
    from staticKeyCount_mono [OF sub, of funder] Cons.prems(2) True
    have big: "spec_staticKeyCount ?next funder > MAX_UNIQUE_KEYS_COUNT" by simp
    from Cons.prems(2) True baseline_ge [of "b @ [x] @ a" funder]
    have "spec_baselineSize (b @ [x] @ a) funder > MAX_TRANSACTION_SIZE"
      by (simp add: MAX_UNIQUE_KEYS_COUNT_def MAX_TRANSACTION_SIZE_def)
    with big show ?thesis
      by (subst packLoop_Cons) (simp add: getTransactionSize_no_tables withinBudget_def)
  next
    case False
    with Cons.prems(1) have in_rest: "ix \<in> set rest" by simp
    have s1: "set (b @ a) \<subseteq> set (instructions \<lparr>instructions = ?next, lookupTables' = lookupTables (getTransactionSize ?next funder [])\<rparr>)"
      using Cons.prems(3) by (auto simp: set_insert_arr)
    have s2: "set (b @ a) \<subseteq> set (instructions \<lparr>instructions = b @ [x] @ a, lookupTables' = lookupTables (getTransactionSize (b @ [x] @ a) funder [])\<rparr>)"
      by auto
    from Cons.IH [OF in_rest Cons.prems(2) s1] Cons.IH [OF in_rest Cons.prems(2) s2]
    show ?thesis by (subst packLoop_Cons) auto
  qed
qed

subsection \<open>The signing passes\<close>

lemma map_snd_txsToSign: "map snd (txsToSign txs idx) = filter (\<lambda>i. i \<in> set idx) [0..<length txs]"
proof -
  have "map snd (filter (\<lambda>(tx, index). index \<in> set idx) (zip txs ns))
        = filter (\<lambda>i. i \<in> set idx) ns" if "length ns = length txs" for ns :: "nat list"
    using that by (induction txs ns rule: list_induct2') auto
  then show ?thesis by (simp add: txsToSign_def)
qed

lemma length_fold_update:
  "length (fold (\<lambda>x txs. txs[f x := g x]) xs txs) = length txs"
  by (induction xs arbitrary: txs) auto

lemma signTxns_Inr:
  "signTxns loop k entry (txs, trace) = Inr (txs', trace')
   \<Longrightarrow> length txs' = length txs \<and> trace' = trace @ spec_signerEvents (length txs) (k, entry)"
  by (auto simp: signTxns_def Let_def spec_signerEvents_def assignedIndices_def
                 map_snd_txsToSign length_fold_update split: option.splits if_splits)

lemma signTxns_Inl:
  "signTxns loop k entry (txs, trace) = Inl (e, trace')
   \<Longrightarrow> \<exists>evs. trace' = trace @ evs \<and> evs \<noteq> []
         \<and> prefix evs (spec_signerEvents (length txs) (k, entry))"
  by (auto simp: signTxns_def Let_def spec_signerEvents_def assignedIndices_def
                 map_snd_txsToSign split: option.splits if_splits)

lemma signPass_Inr:
  "signPass loop entries (txs, trace) = Inr (txs', trace')
   \<Longrightarrow> length txs' = length txs
       \<and> trace' = trace @ concat (map (spec_signerEvents (length txs))
                  (filter (\<lambda>p. selected loop (requiresAsync (signer (snd p)) loop)) entries))"
proof (induction entries arbitrary: txs trace)
  case Nil
  then show ?case by simp
next
  case (Cons p rest)
  obtain k entry where p: "p = (k, entry)" by (cases p)
  show ?case
  proof (cases "selected loop (requiresAsync (signer entry) loop)")
    case True
    with Cons.prems p obtain t1 tr1 where s: "signTxns loop k entry (txs, trace) = Inr (t1, tr1)"
      and r: "signPass loop rest (t1, tr1) = Inr (txs', trace')"
      by (auto split: sum.splits)
    from signTxns_Inr [OF s] Cons.IH [OF r] True p show ?thesis by simp
  next
    case False
    with Cons.prems Cons.IH p show ?thesis by simp
  qed
qed

lemma signPass_Inl:
  "signPass loop entries (txs, trace) = Inl (e, trace')
   \<Longrightarrow> \<exists>evs. trace' = trace @ evs \<and> evs \<noteq> []
        \<and> prefix evs (concat (map (spec_signerEvents (length txs))
                  (filter (\<lambda>p. selected loop (requiresAsync (signer (snd p)) loop)) entries)))"
proof (induction entries arbitrary: txs trace)
  case Nil
  then show ?case by simp
next
  case (Cons p rest)
  obtain k entry where p: "p = (k, entry)" by (cases p)
  show ?case
  proof (cases "selected loop (requiresAsync (signer entry) loop)")
    case True
    show ?thesis
    proof (cases "signTxns loop k entry (txs, trace)")
      case (Inl a)
      with Cons.prems True p have "signTxns loop k entry (txs, trace) = Inl (e, trace')" by simp
      from signTxns_Inl [OF this] True p show ?thesis by (auto simp: prefix_def)
    next
      case (Inr b)
      obtain t1 tr1 where b: "b = (t1, tr1)" by (cases b)
      with Inr Cons.prems True p have r: "signPass loop rest (t1, tr1) = Inl (e, trace')" by simp
      from signTxns_Inr [OF Inr [unfolded b]] Cons.IH [OF r] True p show ?thesis
        by (auto simp: prefix_def spec_signerEvents_def)
    qed
  next
    case False
    with Cons.prems Cons.IH p show ?thesis by simp
  qed
qed

text \<open>
  With stable answers the signers of the second loop are those the first loop left.
\<close>

lemma stable_second_loop:
  "stableAnswers signerMap
   \<Longrightarrow> filter (\<lambda>p. \<not> requiresAsync (signer (snd p)) SecondLoop) signerMap
       = filter (\<lambda>p. \<not> requiresAsync (signer (snd p)) FirstLoop) signerMap"
  by (induction signerMap) (auto simp: stableAnswers_def)

lemma callsOf_append [simp]: "callsOf (xs @ ys) k = callsOf xs k + callsOf ys k"
  by (simp add: callsOf_def)

lemma callsOf_Nil [simp]: "callsOf [] k = 0"
  by (simp add: callsOf_def)

lemma callsOf_events:
  "callsOf (concat (map (spec_signerEvents n) es)) k = length (filter (\<lambda>p. fst p = k) es)"
  by (induction es) (auto simp: spec_signerEvents_def callsOf_def)

lemma callsOf_twoPass:
  "callsOf (spec_twoPassTrace n es) k = length (filter (\<lambda>p. fst p = k) es)"
proof -
  have "length (filter (\<lambda>p. fst p = k) (filter (\<lambda>p. requiresAsync (signer (snd p)) FirstLoop) es))
        + length (filter (\<lambda>p. fst p = k)
                    (filter (\<lambda>p. \<not> requiresAsync (signer (snd p)) FirstLoop) es))
        = length (filter (\<lambda>p. fst p = k) es)"
    by (induction es) auto
  then show ?thesis by (simp add: spec_twoPassTrace_def callsOf_events)
qed

lemma distinct_count_one:
  "distinct (map f es) \<Longrightarrow> e \<in> set es \<Longrightarrow> length (filter (\<lambda>x. f x = f e) es) = 1"
proof (induction es)
  case Nil
  then show ?case by simp
next
  case (Cons x es)
  show ?case
  proof (cases "x = e")
    case True
    with Cons.prems(1) have "f e \<notin> f ` set es" by simp
    then have "filter (\<lambda>x. f x = f e) es = []"
      by (metis (mono_tags, lifting) filter_False image_eqI)
    with True show ?thesis by simp
  next
    case False
    with Cons.prems have "e \<in> set es" "f x \<noteq> f e" "distinct (map f es)" by auto
    with Cons.IH show ?thesis by simp
  qed
qed

lemma pack_first_too_large:
  assumes scaffold: "withinBudget (getTransactionSize (beforeIxs @ afterIxs) funder [])"
    and many: "38 < spec_staticKeyCount (beforeIxs @ [ix] @ afterIxs) funder"
  shows "buildDynamicTransactionsNoSigning (ix # rest) funder beforeIxs afterIxs [] m =
           Inl (err_ix_size @ programId (instruction ix))"
proof -
  let ?init = "\<lparr>instructions = beforeIxs @ afterIxs,
                lookupTables' = lookupTables (getTransactionSize (beforeIxs @ afterIxs) funder [])\<rparr>"
  have nx: "insert_arr (beforeIxs @ afterIxs) (length beforeIxs) ix = beforeIxs @ ix # afterIxs"
    by (simp add: insert_arr_def)
  from many baseline_ge [of "beforeIxs @ [ix] @ afterIxs" funder]
  have big: "MAX_TRANSACTION_SIZE < spec_baselineSize (beforeIxs @ [ix] @ afterIxs) funder"
    by (simp add: MAX_TRANSACTION_SIZE_def)
  have "packLoop funder beforeIxs afterIxs [] m (ix # rest) ?init [] =
          Inl (err_ix_size @ programId (instruction ix))"
    using big by (subst packLoop_Cons) (simp add: nx getTransactionSize_no_tables withinBudget_def)
  with scaffold show ?thesis
    by (simp add: buildDynamicTransactionsNoSigning_def buildLookupTableSet_def withinBudget_def
          Let_def)
qed

subsection \<open>The messages of a failed packing\<close>

lemma getTransactionSize_many_keys:
  assumes "MAX_UNIQUE_KEYS_COUNT < spec_staticKeyCount ixs funder"
  shows "getTransactionSize ixs funder luts =
           \<lparr>size' = spec_baselineSize ixs funder, lookupTables = [],
            uniqueKeyCount = spec_staticKeyCount ixs funder\<rparr>"
proof -
  obtain E A where eq: "\<And>luts. getTransactionSize ixs funder luts =
          (if spec_baselineSize ixs funder \<le> MAX_TRANSACTION_SIZE \<or> luts = []
              \<or> spec_staticKeyCount ixs funder > MAX_UNIQUE_KEYS_COUNT
           then \<lparr>size' = spec_baselineSize ixs funder, lookupTables = [],
                 uniqueKeyCount = spec_staticKeyCount ixs funder\<rparr>
           else findBestLookupTables
                  \<lparr>staticSize = spec_staticRegion ixs funder, staticAccounts = A\<rparr>
                  (spec_baselineSize ixs funder) 0 0 E [] luts)"
    by (rule getTransactionSize_cases [of ixs funder]) blast
  from assms show ?thesis by (simp add: eq)
qed

lemma getTransactionSize_small:
  assumes "spec_baselineSize ixs funder \<le> MAX_TRANSACTION_SIZE"
  shows "getTransactionSize ixs funder luts =
           \<lparr>size' = spec_baselineSize ixs funder, lookupTables = [],
            uniqueKeyCount = spec_staticKeyCount ixs funder\<rparr>"
proof -
  obtain E A where eq: "\<And>luts. getTransactionSize ixs funder luts =
          (if spec_baselineSize ixs funder \<le> MAX_TRANSACTION_SIZE \<or> luts = []
              \<or> spec_staticKeyCount ixs funder > MAX_UNIQUE_KEYS_COUNT
           then \<lparr>size' = spec_baselineSize ixs funder, lookupTables = [],
                 uniqueKeyCount = spec_staticKeyCount ixs funder\<rparr>
           else findBestLookupTables
                  \<lparr>staticSize = spec_staticRegion ixs funder, staticAccounts = A\<rparr>
                  (spec_baselineSize ixs funder) 0 0 E [] luts)"
    by (rule getTransactionSize_cases [of ixs funder]) blast
  from assms show ?thesis by (simp add: eq)
qed

text \<open>
  The keys the selector starts from: the account keys that are neither a signer nor a
  program id.
\<close>

lemma getTransactionSize_selector:
  assumes "MAX_TRANSACTION_SIZE < spec_baselineSize ixs funder" and "luts \<noteq> []"
    and "spec_staticKeyCount ixs funder \<le> MAX_UNIQUE_KEYS_COUNT"
  obtains E A where "distinct E"
    and "set E = set (accountKeys ixs) - insert funder (set (signerKeys ixs))
                   - set (programKeys ixs)"
    and "A + length E = spec_staticKeyCount ixs funder"
    and "getTransactionSize ixs funder luts =
           findBestLookupTables
             \<lparr>staticSize = spec_staticRegion ixs funder, staticAccounts = A\<rparr>
             (spec_baselineSize ixs funder) 0 0 E [] luts"
proof -
  obtain us ps el where ks: "keySets ixs funder = (us, ps, el)"
    by (cases "keySets ixs funder") auto
  note kp = keySets_props [OF ks]
  define E where "E = fold set_delete ps (fold set_delete us el)"
  define I where "I = new_Set (us @ ps)"
  have dE: "distinct E" using kp by (simp add: E_def)
  have sE: "set E = set el - set us - set ps" by (auto simp: E_def)
  have dI: "distinct I" by (simp add: I_def)
  have sI: "set I = set us \<union> set ps" by (simp add: I_def)
  have lus: "length us = spec_signerCount ixs funder"
    using kp by (simp add: spec_signerCount_def distinct_card [symmetric])
  have "set I \<inter> set E = {}" using sE sI by auto
  then have "length I + length E = card (set I \<union> set E)"
    using dE dI by (simp add: distinct_card card_Un_disjoint)
  also have "set I \<union> set E = set (funder # signerKeys ixs @ programKeys ixs @ accountKeys ixs)"
    using sE sI kp by auto
  finally have cnt: "length I + length E = spec_staticKeyCount ixs funder"
    by (simp add: spec_staticKeyCount_def)
  have region: "lengthToCompact16size (length us) + length us * 64 + 3 + 32 + 1
                 + lengthToCompact16size (length ixs)
                 + fold (\<lambda>ixw acc. acc + ixSize ixw) ixs 0 + 1 = spec_staticRegion ixs funder"
    by (simp add: lus spec_staticRegion_def fold_ixSize sum_ixSize lengthToCompact16size_eq)
  have base: "totalSize \<lparr>staticSize = spec_staticRegion ixs funder, staticAccounts = length I\<rparr>
                0 0 (length E) = spec_baselineSize ixs funder"
    by (simp add: totalSize_def Let_def cnt spec_baselineSize_def lengthToCompact16size_eq)
  have eq: "getTransactionSize ixs funder luts =
          findBestLookupTables
                  \<lparr>staticSize = spec_staticRegion ixs funder, staticAccounts = length I\<rparr>
                  (spec_baselineSize ixs funder) 0 0 E [] luts"
    unfolding getTransactionSize_def ks prod.case Let_def E_def [symmetric] I_def [symmetric]
      region base cnt
    using assms by simp
  from sE kp have "set E = set (accountKeys ixs) - insert funder (set (signerKeys ixs))
                   - set (programKeys ixs)" by simp
  with dE show thesis using cnt eq by (rule that)
qed

text \<open>
  The loop fails with the size message only: where the key test of the fresh minimal
  batch is reached, the size is within 1232 bytes, and then the keys are within 128.
\<close>

lemma packLoop_error_is_size:
  "packLoop funder b a lta m ixs current outp = Inl e
   \<Longrightarrow> \<exists>ix \<in> set ixs. e = err_ix_size @ programId (instruction ix)"
proof (induction ixs arbitrary: current outp)
  case Nil
  then show ?case by simp
next
  case (Cons ix rest)
  have k: "(MAX_UNIQUE_KEYS_COUNT < uniqueKeyCount (getTransactionSize (b @ ix # a) funder lta))
           = False"
    if "\<not> MAX_TRANSACTION_SIZE < size' (getTransactionSize (b @ ix # a) funder lta)"
    using that getTransactionSize_keys_imp_size [of "b @ ix # a" funder lta] by blast
  from Cons.prems show ?case
    by (subst (asm) packLoop_Cons) (auto simp: k split: if_splits dest: Cons.IH)
qed

lemma err_messages_differ:
  "err_scaffold_size \<noteq> err_ix_keys @ p" "err_scaffold_keys \<noteq> err_ix_keys @ p"
  "err_ix_size @ q \<noteq> err_ix_keys @ p"
  by (simp_all add: err_scaffold_size_def err_scaffold_keys_def err_ix_size_def err_ix_keys_def)

lemma pack_never_key_message:
  "buildDynamicTransactionsNoSigning ixs funder beforeIxs afterIxs luts m
     \<noteq> Inl (err_ix_keys @ p)"
proof
  assume e: "buildDynamicTransactionsNoSigning ixs funder beforeIxs afterIxs luts m
     = Inl (err_ix_keys @ p)"
  let ?lta = "buildLookupTableSet luts"
  let ?init = "\<lparr>instructions = beforeIxs @ afterIxs,
                lookupTables' = lookupTables (getTransactionSize (beforeIxs @ afterIxs) funder ?lta)\<rparr>"
  from e have "packLoop funder beforeIxs afterIxs ?lta m ixs ?init [] = Inl (err_ix_keys @ p)"
    by (auto simp: buildDynamicTransactionsNoSigning_def Let_def err_messages_differ
             split: if_splits sum.splits prod.splits)
  from packLoop_error_is_size [OF this] err_messages_differ(3) [of _ p]
  show False by metis
qed

lemma pack_first_too_many_keys:
  assumes scaffold: "withinBudget (getTransactionSize (beforeIxs @ afterIxs) funder
                                     (buildLookupTableSet luts))"
    and many: "MAX_UNIQUE_KEYS_COUNT < spec_staticKeyCount (beforeIxs @ [ix] @ afterIxs) funder"
  shows "buildDynamicTransactionsNoSigning (ix # rest) funder beforeIxs afterIxs luts m =
           Inl (err_ix_size @ programId (instruction ix))"
proof -
  let ?lta = "buildLookupTableSet luts"
  let ?init = "\<lparr>instructions = beforeIxs @ afterIxs,
                lookupTables' = lookupTables (getTransactionSize (beforeIxs @ afterIxs) funder ?lta)\<rparr>"
  have nx: "insert_arr (beforeIxs @ afterIxs) (length beforeIxs) ix = beforeIxs @ ix # afterIxs"
    by (simp add: insert_arr_def)
  from many baseline_ge [of "beforeIxs @ [ix] @ afterIxs" funder]
  have big: "MAX_TRANSACTION_SIZE < spec_baselineSize (beforeIxs @ [ix] @ afterIxs) funder"
    by (simp add: MAX_TRANSACTION_SIZE_def MAX_UNIQUE_KEYS_COUNT_def)
  have est: "getTransactionSize (beforeIxs @ ix # afterIxs) funder ?lta =
           \<lparr>size' = spec_baselineSize (beforeIxs @ [ix] @ afterIxs) funder, lookupTables = [],
            uniqueKeyCount = spec_staticKeyCount (beforeIxs @ [ix] @ afterIxs) funder\<rparr>"
    using getTransactionSize_many_keys [OF many, of ?lta] by simp
  have "packLoop funder beforeIxs afterIxs ?lta m (ix # rest) ?init [] =
          Inl (err_ix_size @ programId (instruction ix))"
    using big by (subst packLoop_Cons) (simp add: nx est withinBudget_def)
  with scaffold show ?thesis
    by (simp add: buildDynamicTransactionsNoSigning_def withinBudget_def Let_def)
qed

section \<open>Evaluation of the example inputs\<close>

lemmas eval_defs = example_ix_def example_lut_def getTransactionSize_def keySets_def
  set_add_def set_delete_def new_Set_def ixSize_def lengthToCompact16size_def totalSize_def
  MAX_TRANSACTION_SIZE_def MAX_UNIQUE_KEYS_COUNT_def containedInLUTCount_def Let_def
  scanLuts.simps(2) findBestLookupTables.simps buildLookupTableSet_def withinBudget_def

lemmas pack_defs = buildDynamicTransactionsNoSigning_def packLoop.simps(2) insert_arr_def
  err_scaffold_size_def err_scaffold_keys_def err_ix_size_def err_ix_keys_def

lemma greedy_scaffold_size:
  "getTransactionSize greedy_scaffold ''F'' (buildLookupTableSet greedy_tables) =
     \<lparr>size' = 1239, lookupTables = [example_lut ''T1'' [''a1'', ''a2'', ''a3'', ''b1'', ''b2'', ''b3'']],
      uniqueKeyCount = 8\<rparr>"
  by (simp add: greedy_scaffold_def greedy_tables_def eval_defs)

lemma greedy_minimal_size:
  "getTransactionSize (greedy_scaffold @ [greedy_ix]) ''F'' (buildLookupTableSet greedy_tables) =
     \<lparr>size' = 1220,
      lookupTables = [example_lut ''T2'' [''a1'', ''a2'', ''a3'', ''a4'', ''c1'', ''c2'', ''c3''],
                      example_lut ''T3'' [''b1'', ''b2'', ''b3'', ''b4'']],
      uniqueKeyCount = 11\<rparr>"
  by (simp add: greedy_scaffold_def greedy_ix_def greedy_tables_def eval_defs)

lemma tight_useless_size:
  "getTransactionSize [tight_ix] ''F'' (buildLookupTableSet [tight_useless])
     = \<lparr>size' = 1260, lookupTables = [], uniqueKeyCount = 4\<rparr>"
  by (simp add: tight_ix_def tight_useless_def eval_defs)

lemmas candidate_defs = candidateSize_def candidateCount_def candidateRemaining_def
  roomy_first_def roomy_second_def roomy_third_def

lemmas sign_defs = signTransactionReturns_def signTxns_def txsToSign_def example_signers_def
  example_signer_def fickle_signers_def Let_def

lemma example_signing_ok:
  "signTransactionReturns [[], []] (example_signers True)
     = Inr ([[''K''], [''W'', ''K'']],
            [SignAllCalled ''W'' [1], SignAllResolved ''W'',
             SignAllCalled ''K'' [0, 1], SignAllResolved ''K''])"
  by (simp add: sign_defs)

lemma example_signing_rejected:
  "signTransactionReturns [[], []] (example_signers False)
     = Inl (SignerRejected, [SignAllCalled ''W'' [1]])"
  by (simp add: sign_defs)

lemma fickle_signing:
  "signTransactionReturns [[]] fickle_signers
     = Inr ([[''V'', ''V'']],
            [SignAllCalled ''V'' [0], SignAllResolved ''V'',
             SignAllCalled ''V'' [0], SignAllResolved ''V''])"
  by (simp add: sign_defs)

lemma distinct_crowded_keys: "distinct (crowded_keys n)"
proof -
  have "inj_on (\<lambda>i. replicate (Suc i) CHR ''k'') (set [0..<n])"
    by (rule inj_onI) (metis length_replicate nat.inject)
  then show ?thesis by (simp add: crowded_keys_def distinct_map)
qed

lemma crowded_keys_fresh: "''F'' \<notin> set (crowded_keys n)" "''P'' \<notin> set (crowded_keys n)"
proof -
  have "replicate (Suc i) CHR ''k'' \<noteq> ''F''" "replicate (Suc i) CHR ''k'' \<noteq> ''P''" for i
    by simp_all
  then show "''F'' \<notin> set (crowded_keys n)" "''P'' \<notin> set (crowded_keys n)"
    by (auto simp: crowded_keys_def)
qed

lemma crowded_count: "spec_staticKeyCount [crowded_ix n] ''F'' = n + 2"
proof -
  have "set (''F'' # signerKeys [crowded_ix n] @ programKeys [crowded_ix n] @ accountKeys [crowded_ix n])
        = set (''F'' # ''P'' # crowded_keys n)"
    by (auto simp: signerKeys_def programKeys_def accountKeys_def crowded_ix_def example_ix_def
          comp_def)
  moreover have "distinct (''F'' # ''P'' # crowded_keys n)"
    using distinct_crowded_keys crowded_keys_fresh by simp
  ultimately have "spec_staticKeyCount [crowded_ix n] ''F'' = length (''F'' # ''P'' # crowded_keys n)"
    unfolding spec_staticKeyCount_def by (metis distinct_card)
  then show ?thesis by (simp add: crowded_keys_def)
qed

lemma empty_scaffold_fits: "withinBudget (getTransactionSize ([] @ []) ''F'' [])"
  by (simp add: eval_defs)

lemma crowded_pack:
  "36 < n \<Longrightarrow> buildDynamicTransactionsNoSigning [crowded_ix n] ''F'' [] [] [] 64 =
     Inl (err_ix_size @ ''P'')"
  using pack_first_too_large [OF empty_scaffold_fits, of "crowded_ix n" "[]" 64]
  by (simp add: crowded_count) (simp add: crowded_ix_def example_ix_def)

lemma crowded_signers: "spec_signerCount [crowded_ix n] ''F'' = 1"
  by (simp add: spec_signerCount_def signerKeys_def crowded_ix_def example_ix_def filter_map
        comp_def)

lemma crowded_region: "n \<le> 127 \<Longrightarrow> spec_staticRegion [crowded_ix n] ''F'' = n + 106"
  by (simp add: spec_staticRegion_def crowded_signers compact_length_of_def)
     (simp add: crowded_ix_def example_ix_def crowded_keys_def)

lemma crowded_estimate_over_keys:
  "getTransactionSize [crowded_ix 127] ''F'' (buildLookupTableSet [crowded_table 127])
     = \<lparr>size' = 4363, lookupTables = [], uniqueKeyCount = 129\<rparr>"
proof -
  have "MAX_UNIQUE_KEYS_COUNT < spec_staticKeyCount [crowded_ix 127] ''F''"
    by (simp add: crowded_count MAX_UNIQUE_KEYS_COUNT_def)
  from getTransactionSize_many_keys [OF this] show ?thesis
    by (simp add: spec_baselineSize_def crowded_region crowded_count compact_length_of_def)
qed

lemma empty_scaffold_fits_tables:
  "withinBudget (getTransactionSize (([] :: 's instruction_with_signers list) @ []) ''F''
                   (buildLookupTableSet luts))"
proof -
  have "spec_baselineSize ([] :: 's instruction_with_signers list) ''F'' \<le> MAX_TRANSACTION_SIZE"
    by (simp add: spec_baselineSize_def spec_staticRegion_def spec_signerCount_def
          spec_staticKeyCount_def signerKeys_def programKeys_def accountKeys_def
          compact_length_of_def MAX_TRANSACTION_SIZE_def)
  from getTransactionSize_small [OF this] show ?thesis
    by (simp add: withinBudget_def spec_baselineSize_def spec_staticRegion_def
          spec_signerCount_def spec_staticKeyCount_def signerKeys_def programKeys_def
          accountKeys_def compact_length_of_def MAX_TRANSACTION_SIZE_def
          MAX_UNIQUE_KEYS_COUNT_def)
qed

lemma crowded_estimate_with_table:
  "getTransactionSize [crowded_ix 126] ''F'' (buildLookupTableSet [crowded_table 126])
     = \<lparr>size' = 457, lookupTables = [crowded_table 126], uniqueKeyCount = 126\<rparr>"
proof -
  let ?c = "(new_Set (crowded_keys 126), crowded_table 126)"
  have lta: "buildLookupTableSet [crowded_table 126] = [] @ ?c # []"
    by (simp add: buildLookupTableSet_def crowded_table_def example_lut_def)
  have base: "spec_baselineSize [crowded_ix 126] ''F'' = 4330"
    by (simp add: spec_baselineSize_def crowded_region crowded_count compact_length_of_def)
  have "MAX_TRANSACTION_SIZE < spec_baselineSize [crowded_ix 126] ''F''"
    and "[] @ ?c # [] \<noteq> []"
    and "spec_staticKeyCount [crowded_ix 126] ''F'' \<le> MAX_UNIQUE_KEYS_COUNT"
    by (simp_all add: base crowded_count MAX_TRANSACTION_SIZE_def MAX_UNIQUE_KEYS_COUNT_def)
  then obtain E A where dE: "distinct E"
    and sE: "set E = set (accountKeys [crowded_ix 126])
                 - insert ''F'' (set (signerKeys [crowded_ix 126]))
                 - set (programKeys [crowded_ix 126])"
    and cnt: "A + length E = spec_staticKeyCount [crowded_ix 126] ''F''"
    and eq: "getTransactionSize [crowded_ix 126] ''F'' ([] @ ?c # []) =
           findBestLookupTables
             \<lparr>staticSize = spec_staticRegion [crowded_ix 126] ''F'', staticAccounts = A\<rparr>
             (spec_baselineSize [crowded_ix 126] ''F'') 0 0 E [] ([] @ ?c # [])"
    by (rule getTransactionSize_selector)
  have "accountKeys [crowded_ix 126] = crowded_keys 126"
    by (simp add: accountKeys_def crowded_ix_def example_ix_def comp_def)
  with sE crowded_keys_fresh [of 126] have sE': "set E = set (crowded_keys 126)"
    by (auto simp: signerKeys_def programKeys_def crowded_ix_def example_ix_def)
  with dE distinct_crowded_keys [of 126] have "length E = length (crowded_keys 126)"
    by (metis distinct_card)
  then have lE: "length E = 126" by (simp add: crowded_keys_def)
  with cnt have A: "A = 2" by (simp add: crowded_count)
  from candidate_props(3) [OF dE, of ?c] sE' have r: "candidateRemaining E ?c = []" by simp
  with candidate_props(2) [OF dE, of ?c] lE have c: "candidateCount E ?c = 126" by simp
  have sz: "candidateSize \<lparr>staticSize = spec_staticRegion [crowded_ix 126] ''F'',
                            staticAccounts = A\<rparr> 0 0 E ?c = 457"
    by (simp add: candidateSize_def totalSize_def Let_def r c A crowded_region
          lengthToCompact16size_def)
  have "findBestLookupTables
             \<lparr>staticSize = spec_staticRegion [crowded_ix 126] ''F'', staticAccounts = A\<rparr>
             (spec_baselineSize [crowded_ix 126] ''F'') 0 0 E [] ([] @ ?c # [])
        = \<lparr>size' = 457, lookupTables = [] @ [snd ?c], uniqueKeyCount = 0 + 126 + length ([] :: pubkey list)\<rparr>"
    using findBest_accept_first_below [where pre = "[]" and c = ?c and post = "[]"
        and sas = "\<lparr>staticSize = spec_staticRegion [crowded_ix 126] ''F'', staticAccounts = A\<rparr>"
        and lc = 0 and inc = 0 and rem = E and used = "[]"
        and sz = "spec_baselineSize [crowded_ix 126] ''F''"]
    by (simp add: sz r c MAX_TRANSACTION_SIZE_def)
  with eq lta show ?thesis by simp
qed

lemma crowded_pack_with_table:
  "buildDynamicTransactionsNoSigning [crowded_ix 126] ''F'' [] [] [crowded_table 126] 64
     = Inr [\<lparr>instructions = [crowded_ix 126], lookupTables' = [crowded_table 126]\<rparr>]"
proof -
  let ?lta = "buildLookupTableSet [crowded_table 126]"
  let ?init = "\<lparr>instructions = ([] :: unit instruction_with_signers list) @ [],
                lookupTables' = lookupTables (getTransactionSize
                  (([] :: unit instruction_with_signers list) @ []) ''F'' ?lta)\<rparr>"
  have "packLoop ''F'' [] [] ?lta 64 [crowded_ix 126] ?init []
          = Inr (\<lparr>instructions = [crowded_ix 126], lookupTables' = [crowded_table 126]\<rparr>, [])"
    by (subst packLoop_Cons)
       (simp add: insert_arr_def crowded_estimate_with_table withinBudget_def
          MAX_TRANSACTION_SIZE_def MAX_UNIQUE_KEYS_COUNT_def)
  moreover have "withinBudget (getTransactionSize
                  (([] :: unit instruction_with_signers list) @ []) ''F'' ?lta)"
    by (rule empty_scaffold_fits_tables)
  ultimately show ?thesis
    by (simp add: buildDynamicTransactionsNoSigning_def withinBudget_def Let_def)
qed

lemma crowded_pack_tables:
  "126 < n \<Longrightarrow> buildDynamicTransactionsNoSigning [crowded_ix n] ''F'' [] [] luts 64 =
     Inl (err_ix_size @ ''P'')"
  using pack_first_too_many_keys [OF empty_scaffold_fits_tables, where ix = "crowded_ix n"
          and luts = luts and rest = "[]" and m = 64]
  by (simp add: crowded_count MAX_UNIQUE_KEYS_COUNT_def) (simp add: crowded_ix_def example_ix_def)

section \<open>Dynamic packer: order and failure\<close>

text \<open>
  Claim C1, as amended. When the before/after scaffolding alone is within the byte and
  key budgets, and every instruction on its own between the scaffolding is within the
  byte budget, the key budget and the instruction cap, \<open>pack\<close> returns \<open>ok\<close>; every
  batch is the before-instructions, some instructions, the after-instructions; and the
  batches with the scaffolding removed, concatenated, are the input list in its order.
\<close>

theorem pack_preserves_order:
  assumes scaffold: "withinBudget (getTransactionSize (beforeIxs @ afterIxs) funder (buildLookupTableSet luts))"
    and each: "\<forall>ix \<in> set ixs.
       withinBudget (getTransactionSize (beforeIxs @ [ix] @ afterIxs) funder (buildLookupTableSet luts))
       \<and> length (beforeIxs @ [ix] @ afterIxs) \<le> m"
  shows "\<exists>batches. buildDynamicTransactionsNoSigning ixs funder beforeIxs afterIxs luts m = Inr batches
           \<and> (\<forall>x \<in> set batches. \<exists>mid. instructions x = beforeIxs @ mid @ afterIxs)
           \<and> concat (map (\<lambda>x. stripScaffold beforeIxs afterIxs (instructions x)) batches) = ixs"
proof -
  let ?lta = "buildLookupTableSet luts"
  let ?init = "\<lparr>instructions = beforeIxs @ afterIxs,
                lookupTables' = lookupTables (getTransactionSize (beforeIxs @ afterIxs) funder ?lta)\<rparr>"
  from each have "\<forall>ix \<in> set ixs. withinBudget (getTransactionSize (beforeIxs @ [ix] @ afterIxs) funder ?lta)"
    by simp
  from packLoop_ok [OF this, of m ?init "[]"]
  obtain c out where p: "packLoop funder beforeIxs afterIxs ?lta m ixs ?init [] = Inr (c, out)"
    by blast
  have "instructions ?init = beforeIxs @ [] @ afterIxs" by simp
  from packLoop_shape [OF p this]
  obtain mid' new where h: "instructions c = beforeIxs @ mid' @ afterIxs" "out = new"
    "\<forall>x \<in> set new. \<exists>m'. instructions x = beforeIxs @ m' @ afterIxs"
    "concat (map (\<lambda>x. stripScaffold beforeIxs afterIxs (instructions x)) new) @ mid' = ixs"
    by auto
  show ?thesis
  proof (cases "mid' = []")
    case True
    with p h scaffold show ?thesis
      by (simp add: buildDynamicTransactionsNoSigning_def withinBudget_def Let_def)
  next
    case False
    with p h scaffold show ?thesis
      by (auto simp add: buildDynamicTransactionsNoSigning_def withinBudget_def Let_def)
  qed
qed

text \<open>Witness of C1: two instructions between a before- and an after-instruction.\<close>

theorem pack_preserves_order_witness:
  "withinBudget (getTransactionSize ([example_ix [] ''B'' 1] @ [example_ix [] ''A'' 1]) ''F''
                   (buildLookupTableSet []))
   \<and> withinBudget (getTransactionSize
          ([example_ix [] ''B'' 1] @ [example_ix [''a''] ''P'' 1] @ [example_ix [] ''A'' 1])
          ''F'' (buildLookupTableSet []))
   \<and> length ([example_ix [] ''B'' 1] @ [example_ix [''a''] ''P'' 1] @ [example_ix [] ''A'' 1])
       \<le> (64::nat)
   \<and> withinBudget (getTransactionSize
          ([example_ix [] ''B'' 1] @ [example_ix [''b''] ''P'' 1] @ [example_ix [] ''A'' 1])
          ''F'' (buildLookupTableSet []))
   \<and> length ([example_ix [] ''B'' 1] @ [example_ix [''b''] ''P'' 1] @ [example_ix [] ''A'' 1])
       \<le> (64::nat)
   \<and> (\<exists>batches. buildDynamicTransactionsNoSigning
           [example_ix [''a''] ''P'' 1, example_ix [''b''] ''P'' 1] ''F''
           [example_ix [] ''B'' 1] [example_ix [] ''A'' 1] [] 64 = Inr batches
         \<and> (\<forall>x \<in> set batches. \<exists>mid. instructions x
               = [example_ix [] ''B'' 1] @ mid @ [example_ix [] ''A'' 1])
         \<and> concat (map (\<lambda>x. stripScaffold [example_ix [] ''B'' 1] [example_ix [] ''A'' 1]
                                 (instructions x)) batches)
             = [example_ix [''a''] ''P'' 1, example_ix [''b''] ''P'' 1])"
proof -
  have s: "withinBudget (getTransactionSize ([example_ix [] ''B'' 1] @ [example_ix [] ''A'' 1]) ''F''
                   (buildLookupTableSet []))"
    by (simp add: eval_defs)
  have a: "withinBudget (getTransactionSize
          ([example_ix [] ''B'' 1] @ [example_ix [''a''] ''P'' 1] @ [example_ix [] ''A'' 1])
          ''F'' (buildLookupTableSet []))"
    by (simp add: eval_defs)
  have b: "withinBudget (getTransactionSize
          ([example_ix [] ''B'' 1] @ [example_ix [''b''] ''P'' 1] @ [example_ix [] ''A'' 1])
          ''F'' (buildLookupTableSet []))"
    by (simp add: eval_defs)
  have e: "\<forall>ix \<in> set [example_ix [''a''] ''P'' 1, example_ix [''b''] ''P'' 1].
         withinBudget (getTransactionSize ([example_ix [] ''B'' 1] @ [ix] @ [example_ix [] ''A'' 1])
                         ''F'' (buildLookupTableSet []))
         \<and> length ([example_ix [] ''B'' 1] @ [ix] @ [example_ix [] ''A'' 1]) \<le> 64"
    using a b by simp
  have c: "\<exists>batches. buildDynamicTransactionsNoSigning
           [example_ix [''a''] ''P'' 1, example_ix [''b''] ''P'' 1] ''F''
           [example_ix [] ''B'' 1] [example_ix [] ''A'' 1] [] 64 = Inr batches
         \<and> (\<forall>x \<in> set batches. \<exists>mid. instructions x
               = [example_ix [] ''B'' 1] @ mid @ [example_ix [] ''A'' 1])
         \<and> concat (map (\<lambda>x. stripScaffold [example_ix [] ''B'' 1] [example_ix [] ''A'' 1]
                                 (instructions x)) batches)
             = [example_ix [''a''] ''P'' 1, example_ix [''b''] ''P'' 1]"
    by (rule pack_preserves_order [OF s e])
  have l: "length ([example_ix [] ''B'' 1] @ [example_ix [''a''] ''P'' 1] @ [example_ix [] ''A'' 1])
       \<le> (64::nat)"
    "length ([example_ix [] ''B'' 1] @ [example_ix [''b''] ''P'' 1] @ [example_ix [] ''A'' 1])
       \<le> (64::nat)"
    by simp_all
  from s a b c l show ?thesis by (intro conjI)
qed

text \<open>
  Counterexample to C1 as stated. The single instruction, between the scaffolding, is
  within the three budgets (1220 bytes, 11 keys, 2 instructions), but the scaffolding
  alone is estimated at 1239 bytes, because the greedy selector commits the first table
  for it and then finds no table that improves the size; \<open>pack\<close> fails on the
  scaffolding check.
\<close>

theorem pack_fails_though_each_instruction_fits:
  "withinBudget (getTransactionSize (greedy_scaffold @ [greedy_ix] @ []) ''F''
                   (buildLookupTableSet greedy_tables))
   \<and> length (greedy_scaffold @ [greedy_ix] @ []) \<le> 64
   \<and> buildDynamicTransactionsNoSigning [greedy_ix] ''F'' greedy_scaffold [] greedy_tables 64
       = Inl err_scaffold_size"
proof -
  have "length (greedy_scaffold @ [greedy_ix] @ []) \<le> 64" by (simp add: greedy_scaffold_def)
  moreover have "withinBudget (getTransactionSize (greedy_scaffold @ [greedy_ix] @ []) ''F''
                   (buildLookupTableSet greedy_tables))"
    by (simp add: greedy_minimal_size withinBudget_def MAX_TRANSACTION_SIZE_def
          MAX_UNIQUE_KEYS_COUNT_def)
  moreover have "buildDynamicTransactionsNoSigning [greedy_ix] ''F'' greedy_scaffold []
      greedy_tables 64 = Inl err_scaffold_size"
    by (simp add: buildDynamicTransactionsNoSigning_def Let_def greedy_scaffold_size
          MAX_TRANSACTION_SIZE_def)
  ultimately show ?thesis by simp
qed

text \<open>
  Claim C10. When the main instruction list is empty and the before/after scaffolding
  alone is within the byte and key budgets, the result is \<open>ok\<close> with no batch at all:
  the scaffolding is never emitted alone.
\<close>

theorem pack_empty_instructions:
  assumes "withinBudget (getTransactionSize (beforeIxs @ afterIxs) funder (buildLookupTableSet luts))"
  shows "buildDynamicTransactionsNoSigning [] funder beforeIxs afterIxs luts m = Inr []"
  using assms by (simp add: buildDynamicTransactionsNoSigning_def withinBudget_def Let_def)

text \<open>Witness of C10: one before- and one after-instruction, no main instruction.\<close>

theorem pack_empty_instructions_witness:
  "withinBudget (getTransactionSize ([example_ix [] ''B'' 1] @ [example_ix [] ''A'' 1]) ''F''
                   (buildLookupTableSet []))
   \<and> buildDynamicTransactionsNoSigning [] ''F'' [example_ix [] ''B'' 1] [example_ix [] ''A'' 1]
         [] 64 = Inr []"
proof -
  have s: "withinBudget (getTransactionSize ([example_ix [] ''B'' 1] @ [example_ix [] ''A'' 1]) ''F''
                   (buildLookupTableSet []))"
    by (simp add: eval_defs)
  from pack_empty_instructions [OF s] s show ?thesis by simp
qed

section \<open>Dynamic packer: budgets of the batches\<close>

text \<open>
  Claim C2 at the input where the code departs from it. With one before- and one
  after-instruction and \<open>maxInstructionCount = 2\<close>, the first main instruction does
  not fit the count cap; the packer emits the working batch, which holds the
  scaffolding only, and starts a batch of three instructions, which it checks against
  the byte and key budgets but not against the cap. A successful call thus emits a
  batch of three instructions under a cap of two, after a batch without any main
  instruction.
\<close>

theorem pack_exceeds_instruction_cap:
  "buildDynamicTransactionsNoSigning [example_ix [''a''] ''P'' 1] ''F''
      [example_ix [] ''B'' 1] [example_ix [] ''A'' 1] [] 2
     = Inr [\<lparr>instructions = [example_ix [] ''B'' 1, example_ix [] ''A'' 1], lookupTables' = []\<rparr>,
            \<lparr>instructions = [example_ix [] ''B'' 1, example_ix [''a''] ''P'' 1,
                              example_ix [] ''A'' 1], lookupTables' = []\<rparr>]
   \<and> length [example_ix [] ''B'' 1, example_ix [''a''] ''P'' 1, example_ix [] ''A'' 1] > (2::nat)"
  by (simp add: pack_defs eval_defs)

text \<open>
  What does hold of every batch of a successful call: its estimated size is at most
  1232, its key count at most 128, and it carries the tables chosen for it
  (\<open>pack_batches_within_size_and_keys\<close> above).
\<close>

section \<open>Lookup-table selection\<close>

text \<open>
  Claim C3 at the input where the code departs from it. For the instruction
  \<open>tight_ix\<close> (static region 1067 bytes, two static keys, four eligible keys) the
  first table has projected size exactly 1232. The loop tests \<open>txnSize < 1232\<close>, so
  this table is not accepted on the spot: alone, it is committed as the best candidate
  and returned after the recursion; followed by a second table, the second one is
  considered and returned in its place.
\<close>

theorem selector_passes_over_candidate_at_budget:
  "spec_staticRegion [tight_ix] ''F'' = 1067
   \<and> candidateSize \<lparr>staticSize = 1067, staticAccounts = 2\<rparr> 0 0 [''k1'', ''k2'', ''k3'', ''k4'']
       (new_Set (addresses tight_first), tight_first) = 1232
   \<and> getTransactionSize [tight_ix] ''F'' (buildLookupTableSet [tight_first])
       = \<lparr>size' = 1232, lookupTables = [tight_first], uniqueKeyCount = 4\<rparr>
   \<and> getTransactionSize [tight_ix] ''F'' (buildLookupTableSet [tight_first, tight_second])
       = \<lparr>size' = 1201, lookupTables = [tight_second], uniqueKeyCount = 4\<rparr>"
  by (simp add: tight_ix_def tight_first_def tight_second_def eval_defs candidateSize_def
        candidateCount_def candidateRemaining_def spec_staticRegion_def spec_signerCount_def
        signerKeys_def compact_length_of_def)

text \<open>
  The eager acceptance does hold strictly below the budget: the first candidate whose
  projected size is below 1232 is returned with the used tables, whatever follows it
  (\<open>findBest_accept_first_below\<close> above).
\<close>

text \<open>
  Claim C9, as amended. On an exhausted pool the selector returns the size, the used
  tables and the key count it has. On a pool where every candidate's projected size is
  above 1232: if no candidate's projected size is below the current size, it returns
  the same, committing nothing; otherwise the candidate of smallest projected size,
  the first in input order among equals, is committed (appended to the used tables),
  removed from the pool, and the selection goes on from its size, its count of
  included keys and the keys it leaves. The selection ends with the budget met when a
  candidate's projected size is below 1232 and those before it are above: that
  candidate is appended to the used tables and returned.
\<close>

theorem selector_commits_best_candidate:
  "findBestLookupTables sas sz lc inc rem used [] =
      \<lparr>size' = sz, lookupTables = used, uniqueKeyCount = inc + length rem\<rparr>
   \<and> ((\<forall>l \<in> set (pre @ c # post). MAX_TRANSACTION_SIZE < candidateSize sas lc inc rem l) \<longrightarrow>
        ((\<forall>l \<in> set (pre @ c # post). sz \<le> candidateSize sas lc inc rem l) \<longrightarrow>
           findBestLookupTables sas sz lc inc rem used (pre @ c # post) =
             \<lparr>size' = sz, lookupTables = used, uniqueKeyCount = inc + length rem\<rparr>)
        \<and> (candidateSize sas lc inc rem c < sz
            \<and> (\<forall>l \<in> set pre. candidateSize sas lc inc rem c < candidateSize sas lc inc rem l)
            \<and> (\<forall>l \<in> set post. candidateSize sas lc inc rem c \<le> candidateSize sas lc inc rem l)
            \<longrightarrow> findBestLookupTables sas sz lc inc rem used (pre @ c # post) =
                  findBestLookupTables sas (candidateSize sas lc inc rem c) (lc + 1)
                    (inc + candidateCount rem c) (candidateRemaining rem c)
                    (used @ [snd c]) (pre @ post)))
   \<and> ((\<forall>l \<in> set pre. MAX_TRANSACTION_SIZE < candidateSize sas lc inc rem l)
        \<and> candidateSize sas lc inc rem c < MAX_TRANSACTION_SIZE \<longrightarrow>
        findBestLookupTables sas sz lc inc rem used (pre @ c # post) =
          \<lparr>size' = candidateSize sas lc inc rem c, lookupTables = used @ [snd c],
           uniqueKeyCount = inc + candidateCount rem c + length (candidateRemaining rem c)\<rparr>)"
proof (intro conjI impI)
  show "findBestLookupTables sas sz lc inc rem used [] =
      \<lparr>size' = sz, lookupTables = used, uniqueKeyCount = inc + length rem\<rparr>"
    by (simp add: findBestLookupTables.simps)
next
  assume h: "\<forall>l \<in> set (pre @ c # post). MAX_TRANSACTION_SIZE < candidateSize sas lc inc rem l"
    and n: "\<forall>l \<in> set (pre @ c # post). sz \<le> candidateSize sas lc inc rem l"
  from h n have "scanLuts sas lc inc rem 0 (pre @ c # post) (rem, sz, inc, 0) = Inr (rem, sz, inc, 0)"
    by (intro scanLuts_no_improvement) (auto simp: less_imp_le)
  then show "findBestLookupTables sas sz lc inc rem used (pre @ c # post) =
             \<lparr>size' = sz, lookupTables = used, uniqueKeyCount = inc + length rem\<rparr>"
    by (subst findBestLookupTables.simps) simp
next
  let ?luts = "pre @ c # post"
  let ?k = "length pre"
  assume h: "\<forall>l \<in> set ?luts. MAX_TRANSACTION_SIZE < candidateSize sas lc inc rem l"
    and b: "candidateSize sas lc inc rem c < sz
            \<and> (\<forall>l \<in> set pre. candidateSize sas lc inc rem c < candidateSize sas lc inc rem l)
            \<and> (\<forall>l \<in> set post. candidateSize sas lc inc rem c \<le> candidateSize sas lc inc rem l)"
  have na: "\<forall>l \<in> set ?luts. MAX_TRANSACTION_SIZE \<le> candidateSize sas lc inc rem l"
    using h by (auto simp: less_imp_le)
  have k: "?k < length ?luts" by simp
  have at: "?luts ! ?k = c" by simp
  have b1: "candidateSize sas lc inc rem (?luts ! ?k) < sz" using b by simp
  have b2: "\<forall>j < length ?luts. candidateSize sas lc inc rem (?luts ! ?k)
                                  \<le> candidateSize sas lc inc rem (?luts ! j)"
  proof (intro allI impI)
    fix j assume "j < length ?luts"
    then have "?luts ! j \<in> set ?luts" by (rule nth_mem)
    then have "?luts ! j \<in> set pre \<or> ?luts ! j = c \<or> ?luts ! j \<in> set post" by auto
    with b show "candidateSize sas lc inc rem (?luts ! ?k) \<le> candidateSize sas lc inc rem (?luts ! j)"
      unfolding at by (auto simp: less_imp_le)
  qed
  have b3: "\<forall>j < ?k. candidateSize sas lc inc rem (?luts ! ?k) < candidateSize sas lc inc rem (?luts ! j)"
  proof (intro allI impI)
    fix j assume j: "j < ?k"
    then have "?luts ! j = pre ! j" by (simp add: nth_append)
    with j have "?luts ! j \<in> set pre" by simp
    with b show "candidateSize sas lc inc rem (?luts ! ?k) < candidateSize sas lc inc rem (?luts ! j)"
      unfolding at by auto
  qed
  from scanLuts_best [OF na k b1 b2 b3, of 0 rem inc 0] b1
  show "findBestLookupTables sas sz lc inc rem used ?luts =
                  findBestLookupTables sas (candidateSize sas lc inc rem c) (lc + 1)
                    (inc + candidateCount rem c) (candidateRemaining rem c)
                    (used @ [snd c]) (pre @ post)"
    by (subst findBestLookupTables.simps) simp
next
  assume a: "(\<forall>l \<in> set pre. MAX_TRANSACTION_SIZE < candidateSize sas lc inc rem l)
        \<and> candidateSize sas lc inc rem c < MAX_TRANSACTION_SIZE"
  then have "\<forall>l \<in> set pre. MAX_TRANSACTION_SIZE \<le> candidateSize sas lc inc rem l"
    by (auto simp: less_imp_le)
  with a show "findBestLookupTables sas sz lc inc rem used (pre @ c # post) =
          \<lparr>size' = candidateSize sas lc inc rem c, lookupTables = used @ [snd c],
           uniqueKeyCount = inc + candidateCount rem c + length (candidateRemaining rem c)\<rparr>"
    by (intro findBest_accept_first_below) simp_all
qed

text \<open>
  Witness of C9: the selection for \<open>roomy_ix\<close> (static region 1111 bytes, two
  static keys, baseline 1304). The three candidates have projected sizes 1276, 1245
  and 1245; the second is committed, and in the next round neither of the other two
  improves on 1245. For \<open>tight_ix\<close> a table of projected size 1263 is followed by one
  of projected size 1201, which meets the budget.
\<close>

theorem selector_commits_best_candidate_witness:
  "MAX_TRANSACTION_SIZE < candidateSize \<lparr>staticSize = 1111, staticAccounts = 2\<rparr> 0 0
        [''k1'', ''k2'', ''k3'', ''k4''] roomy_first
   \<and> MAX_TRANSACTION_SIZE < candidateSize \<lparr>staticSize = 1111, staticAccounts = 2\<rparr> 0 0
        [''k1'', ''k2'', ''k3'', ''k4''] roomy_second
   \<and> MAX_TRANSACTION_SIZE < candidateSize \<lparr>staticSize = 1111, staticAccounts = 2\<rparr> 0 0
        [''k1'', ''k2'', ''k3'', ''k4''] roomy_third
   \<and> candidateSize \<lparr>staticSize = 1111, staticAccounts = 2\<rparr> 0 0
        [''k1'', ''k2'', ''k3'', ''k4''] roomy_second < 1304
   \<and> candidateSize \<lparr>staticSize = 1111, staticAccounts = 2\<rparr> 0 0
        [''k1'', ''k2'', ''k3'', ''k4''] roomy_second
       < candidateSize \<lparr>staticSize = 1111, staticAccounts = 2\<rparr> 0 0
        [''k1'', ''k2'', ''k3'', ''k4''] roomy_first
   \<and> candidateSize \<lparr>staticSize = 1111, staticAccounts = 2\<rparr> 0 0
        [''k1'', ''k2'', ''k3'', ''k4''] roomy_second
       \<le> candidateSize \<lparr>staticSize = 1111, staticAccounts = 2\<rparr> 0 0
        [''k1'', ''k2'', ''k3'', ''k4''] roomy_third
   \<and> findBestLookupTables \<lparr>staticSize = 1111, staticAccounts = 2\<rparr> 1304 0 0
        [''k1'', ''k2'', ''k3'', ''k4''] [] ([roomy_first] @ roomy_second # [roomy_third])
       = findBestLookupTables \<lparr>staticSize = 1111, staticAccounts = 2\<rparr> 1245 1 3 [''k4'']
           [snd roomy_second] [roomy_first, roomy_third]
   \<and> findBestLookupTables \<lparr>staticSize = 1111, staticAccounts = 2\<rparr> 1245 1 3 [''k4'']
           [snd roomy_second] [roomy_first, roomy_third]
       = \<lparr>size' = 1245, lookupTables = [snd roomy_second], uniqueKeyCount = 4\<rparr>
   \<and> getTransactionSize [roomy_ix] ''F'' [roomy_first, roomy_second, roomy_third]
       = \<lparr>size' = 1245, lookupTables = [snd roomy_second], uniqueKeyCount = 4\<rparr>
   \<and> MAX_TRANSACTION_SIZE < candidateSize \<lparr>staticSize = 1067, staticAccounts = 2\<rparr> 0 0
        [''k1'', ''k2'', ''k3'', ''k4''] (new_Set (addresses tight_useless), tight_useless)
   \<and> candidateSize \<lparr>staticSize = 1067, staticAccounts = 2\<rparr> 0 0
        [''k1'', ''k2'', ''k3'', ''k4''] (new_Set (addresses tight_second), tight_second)
       < MAX_TRANSACTION_SIZE
   \<and> findBestLookupTables \<lparr>staticSize = 1067, staticAccounts = 2\<rparr> 1260 0 0
        [''k1'', ''k2'', ''k3'', ''k4''] []
        ([(new_Set (addresses tight_useless), tight_useless)]
           @ (new_Set (addresses tight_second), tight_second) # [])
       = \<lparr>size' = 1201, lookupTables = [tight_second], uniqueKeyCount = 4\<rparr>"
proof -
  let ?sas = "\<lparr>staticSize = 1111, staticAccounts = 2\<rparr>"
  let ?rem = "[''k1'', ''k2'', ''k3'', ''k4'']"
  have s1: "candidateSize ?sas 0 0 ?rem roomy_first = 1276"
    and s2: "candidateSize ?sas 0 0 ?rem roomy_second = 1245"
    and s3: "candidateSize ?sas 0 0 ?rem roomy_third = 1245"
    by (simp_all add: candidate_defs eval_defs)
  have c2: "candidateCount ?rem roomy_second = 3" "candidateRemaining ?rem roomy_second = [''k4'']"
    by (simp_all add: candidate_defs eval_defs)
  have t1: "candidateSize ?sas (Suc 0) 3 [''k4''] roomy_first = 1279"
    and t3: "candidateSize ?sas (Suc 0) 3 [''k4''] roomy_third = 1248"
    by (simp_all add: candidate_defs eval_defs)
  have step: "findBestLookupTables ?sas 1304 0 0 ?rem [] ([roomy_first] @ roomy_second # [roomy_third])
       = findBestLookupTables ?sas 1245 1 3 [''k4''] [snd roomy_second] [roomy_first, roomy_third]"
    using selector_commits_best_candidate [of ?sas 1304 0 0 ?rem "[]" "[roomy_first]"
             roomy_second "[roomy_third]"]
    by (simp add: s1 s2 s3 c2 MAX_TRANSACTION_SIZE_def)
  have stop: "findBestLookupTables ?sas 1245 1 3 [''k4''] [snd roomy_second]
                 ([roomy_first] @ roomy_third # [])
       = \<lparr>size' = 1245, lookupTables = [snd roomy_second], uniqueKeyCount = 4\<rparr>"
    using selector_commits_best_candidate [of ?sas 1245 1 3 "[''k4'']" "[snd roomy_second]"
             "[roomy_first]" roomy_third "[]"]
    by (simp add: t1 t3 MAX_TRANSACTION_SIZE_def)
  have whole: "getTransactionSize [roomy_ix] ''F'' [roomy_first, roomy_second, roomy_third]
       = \<lparr>size' = 1245, lookupTables = [snd roomy_second], uniqueKeyCount = 4\<rparr>"
    by (simp add: roomy_ix_def candidate_defs eval_defs)
  let ?tsas = "\<lparr>staticSize = 1067, staticAccounts = 2\<rparr>"
  let ?u = "(new_Set (addresses tight_useless), tight_useless)"
  let ?t = "(new_Set (addresses tight_second), tight_second)"
  have u1: "candidateSize ?tsas 0 0 ?rem ?u = 1263"
    and u2: "candidateSize ?tsas 0 0 ?rem ?t = 1201"
    and u3: "candidateCount ?rem ?t = 3" "candidateRemaining ?rem ?t = [''k4'']"
    by (simp_all add: candidateSize_def candidateCount_def candidateRemaining_def
          tight_useless_def tight_second_def eval_defs)
  have met: "findBestLookupTables ?tsas 1260 0 0 ?rem [] ([?u] @ ?t # [])
       = \<lparr>size' = 1201, lookupTables = [tight_second], uniqueKeyCount = 4\<rparr>"
    using selector_commits_best_candidate [of ?tsas 1260 0 0 ?rem "[]" "[?u]" ?t "[]"]
    by (simp add: u1 u2 u3 MAX_TRANSACTION_SIZE_def)
  from s1 s2 s3 step stop whole u1 u2 met show ?thesis by (simp add: MAX_TRANSACTION_SIZE_def)
qed

text \<open>
  Counterexample to C9 as stated. The only candidate has projected size 1263, which
  does not reach the budget, so by the claim it is committed; its size is not below
  the current 1260, and the selector returns with no table.
\<close>

theorem selector_commits_nothing_without_improvement:
  "candidateSize \<lparr>staticSize = 1067, staticAccounts = 2\<rparr> 0 0 [''k1'', ''k2'', ''k3'', ''k4'']
       (new_Set (addresses tight_useless), tight_useless) = 1263
   \<and> getTransactionSize [tight_ix] ''F'' (buildLookupTableSet [tight_useless])
       = \<lparr>size' = 1260, lookupTables = [], uniqueKeyCount = 4\<rparr>"
  by (simp add: tight_useless_size)
     (simp add: tight_useless_def candidateSize_def candidateCount_def candidateRemaining_def eval_defs)

section \<open>Size estimator: the baseline\<close>

text \<open>
  Claim C4. Whenever the estimate selects no table, its size is the static region plus
  the compact length of the static key count plus 32 bytes for each static key; the
  static region, the compact length and the static key count (the fee payer, the
  signer keys, the program ids and the other account keys, as a set) are those of the
  specification.
\<close>

theorem estimate_without_tables_is_baseline:
  assumes "lookupTables (getTransactionSize ixs funder luts) = []"
  shows "size' (getTransactionSize ixs funder luts) = spec_baselineSize ixs funder"
  using assms by (rule getTransactionSize_nil_tables)

text \<open>
  Witness of C4: a table is supplied that does not improve the size, so none is
  selected and the estimate is the baseline, 1260 bytes.
\<close>

theorem estimate_without_tables_is_baseline_witness:
  "lookupTables (getTransactionSize [tight_ix] ''F'' (buildLookupTableSet [tight_useless])) = []
   \<and> size' (getTransactionSize [tight_ix] ''F'' (buildLookupTableSet [tight_useless]))
       = spec_baselineSize [tight_ix] ''F''
   \<and> spec_baselineSize [tight_ix] ''F'' = 1260"
proof -
  have h: "lookupTables (getTransactionSize [tight_ix] ''F'' (buildLookupTableSet [tight_useless])) = []"
    by (simp add: tight_useless_size)
  from estimate_without_tables_is_baseline [OF h] h tight_useless_size show ?thesis by simp
qed

section \<open>Dynamic packer: the key boundary and the errors\<close>

text \<open>
  Claim C5, as amended. A non-empty instruction list, of any number of unique keys,
  is packed into exactly one batch, holding the whole list between the scaffolding,
  when the scaffolding alone is within the byte and key budgets and every non-empty
  prefix of the list, between the scaffolding, is within the byte budget, the key
  budget and the instruction cap. With no tables, a list with an instruction that,
  together with the scaffolding, has more than 128 unique keys makes \<open>pack\<close> fail.
\<close>

theorem pack_key_boundary:
  "(ixs \<noteq> []
     \<and> withinBudget (getTransactionSize (beforeIxs @ afterIxs) funder (buildLookupTableSet luts))
     \<and> (\<forall>n \<in> {1..length ixs}.
           withinBudget (getTransactionSize (beforeIxs @ take n ixs @ afterIxs) funder
                           (buildLookupTableSet luts))
           \<and> length (beforeIxs @ take n ixs @ afterIxs) \<le> m)
     \<longrightarrow> buildDynamicTransactionsNoSigning ixs funder beforeIxs afterIxs luts m =
           Inr [\<lparr>instructions = beforeIxs @ ixs @ afterIxs,
                 lookupTables' = lookupTables (getTransactionSize (beforeIxs @ ixs @ afterIxs)
                                   funder (buildLookupTableSet luts))\<rparr>])
   \<and> (ix \<in> set ixs
       \<and> uniqueKeyCount (getTransactionSize (beforeIxs @ [ix] @ afterIxs) funder []) > MAX_UNIQUE_KEYS_COUNT
     \<longrightarrow> (\<exists>e. buildDynamicTransactionsNoSigning ixs funder beforeIxs afterIxs [] m = Inl e))"
proof (intro conjI impI)
  let ?lta = "buildLookupTableSet luts"
  let ?init = "\<lparr>instructions = beforeIxs @ afterIxs,
                lookupTables' = lookupTables (getTransactionSize (beforeIxs @ afterIxs) funder ?lta)\<rparr>"
  assume h: "ixs \<noteq> []
     \<and> withinBudget (getTransactionSize (beforeIxs @ afterIxs) funder ?lta)
     \<and> (\<forall>n \<in> {1..length ixs}.
           withinBudget (getTransactionSize (beforeIxs @ take n ixs @ afterIxs) funder ?lta)
           \<and> length (beforeIxs @ take n ixs @ afterIxs) \<le> m)"
  then have a: "\<forall>n \<in> {1..length ixs}.
           withinBudget (getTransactionSize (beforeIxs @ [] @ take n ixs @ afterIxs) funder ?lta)
           \<and> length (beforeIxs @ [] @ take n ixs @ afterIxs) \<le> m" by simp
  have i: "instructions ?init = beforeIxs @ [] @ afterIxs" by simp
  from h have ne: "ixs \<noteq> []" by simp
  from packLoop_all_fit [OF a i ne, of "[]"] h
  show "buildDynamicTransactionsNoSigning ixs funder beforeIxs afterIxs luts m =
           Inr [\<lparr>instructions = beforeIxs @ ixs @ afterIxs,
                 lookupTables' = lookupTables (getTransactionSize (beforeIxs @ ixs @ afterIxs)
                                   funder ?lta)\<rparr>]"
    by (simp add: buildDynamicTransactionsNoSigning_def withinBudget_def Let_def)
next
  let ?init = "\<lparr>instructions = beforeIxs @ afterIxs,
                lookupTables' = lookupTables (getTransactionSize (beforeIxs @ afterIxs) funder [])\<rparr>"
  assume h: "ix \<in> set ixs
       \<and> uniqueKeyCount (getTransactionSize (beforeIxs @ [ix] @ afterIxs) funder []) > MAX_UNIQUE_KEYS_COUNT"
  then have k: "spec_staticKeyCount (beforeIxs @ [ix] @ afterIxs) funder > MAX_UNIQUE_KEYS_COUNT"
    by (simp add: getTransactionSize_no_tables)
  have "set (beforeIxs @ afterIxs) \<subseteq> set (instructions ?init)" by simp
  from packLoop_too_many_keys [OF _ k this, of ixs m "[]"] h
  obtain e where "packLoop funder beforeIxs afterIxs [] m ixs ?init [] = Inl e" by blast
  then show "\<exists>e. buildDynamicTransactionsNoSigning ixs funder beforeIxs afterIxs [] m = Inl e"
    by (simp add: buildDynamicTransactionsNoSigning_def buildLookupTableSet_def Let_def)
qed

text \<open>
  Counterexample to C5 as stated. One instruction of 128 unique keys (the fee payer,
  the program and 126 accounts), with no tables, is not packed into one batch:
  \<open>pack\<close> fails. One instruction of 129 unique keys fails with the size message,
  which is not the key message.
\<close>

theorem pack_key_boundary_counterexample:
  "uniqueKeyCount (getTransactionSize [crowded_ix 126] ''F'' []) = 128
   \<and> buildDynamicTransactionsNoSigning [crowded_ix 126] ''F'' [] [] [] 64
       = Inl (err_ix_size @ ''P'')
   \<and> uniqueKeyCount (getTransactionSize [crowded_ix 127] ''F'' []) = 129
   \<and> buildDynamicTransactionsNoSigning [crowded_ix 127] ''F'' [] [] [] 64
       = Inl (err_ix_size @ ''P'')
   \<and> err_ix_size @ ''P'' \<noteq> err_ix_keys @ ''P''"
  by (simp add: getTransactionSize_no_tables crowded_count crowded_pack)
     (simp add: err_ix_size_def err_ix_keys_def)

text \<open>
  Witness of C5: two small instructions packed into one batch, and a list holding the
  instruction of 129 unique keys.
\<close>

theorem pack_key_boundary_witness:
  "[example_ix [''a''] ''P'' 1, example_ix [''b''] ''P'' 1] \<noteq> []
   \<and> withinBudget (getTransactionSize ([example_ix [] ''B'' 1] @ [example_ix [] ''A'' 1]) ''F''
                     (buildLookupTableSet []))
   \<and> withinBudget (getTransactionSize
          ([example_ix [] ''B'' 1] @ [example_ix [''a''] ''P'' 1] @ [example_ix [] ''A'' 1])
          ''F'' (buildLookupTableSet []))
   \<and> withinBudget (getTransactionSize
          ([example_ix [] ''B'' 1] @ [example_ix [''a''] ''P'' 1, example_ix [''b''] ''P'' 1]
             @ [example_ix [] ''A'' 1])
          ''F'' (buildLookupTableSet []))
   \<and> buildDynamicTransactionsNoSigning [example_ix [''a''] ''P'' 1, example_ix [''b''] ''P'' 1]
         ''F'' [example_ix [] ''B'' 1] [example_ix [] ''A'' 1] [] 64
       = Inr [\<lparr>instructions = [example_ix [] ''B'' 1] @
                  [example_ix [''a''] ''P'' 1, example_ix [''b''] ''P'' 1] @ [example_ix [] ''A'' 1],
               lookupTables' = []\<rparr>]
   \<and> crowded_ix 127 \<in> set [example_ix [''a''] ''P'' 1, crowded_ix 127]
   \<and> MAX_UNIQUE_KEYS_COUNT
        < uniqueKeyCount (getTransactionSize ([] @ [crowded_ix 127] @ []) ''F'' [])
   \<and> (\<exists>e. buildDynamicTransactionsNoSigning [example_ix [''a''] ''P'' 1, crowded_ix 127]
              ''F'' [] [] [] 64 = Inl e)"
proof -
  let ?a = "example_ix [''a''] ''P'' 1" and ?b = "example_ix [''b''] ''P'' 1"
  let ?B = "example_ix [] ''B'' 1" and ?A = "example_ix [] ''A'' 1"
  have s: "withinBudget (getTransactionSize ([?B] @ [?A]) ''F'' (buildLookupTableSet []))"
    by (simp add: eval_defs)
  have p1: "withinBudget (getTransactionSize ([?B] @ [?a] @ [?A]) ''F'' (buildLookupTableSet []))"
    by (simp add: eval_defs)
  have p2: "withinBudget (getTransactionSize ([?B] @ [?a, ?b] @ [?A]) ''F'' (buildLookupTableSet []))"
    by (simp add: eval_defs)
  have t2: "lookupTables (getTransactionSize ([?B] @ [?a, ?b] @ [?A]) ''F'' (buildLookupTableSet [])) = []"
    by (simp add: eval_defs)
  have all: "\<forall>n \<in> {1..length [?a, ?b]}.
           withinBudget (getTransactionSize ([?B] @ take n [?a, ?b] @ [?A]) ''F''
                           (buildLookupTableSet []))
           \<and> length ([?B] @ take n [?a, ?b] @ [?A]) \<le> 64"
  proof
    fix n assume "n \<in> {1..length [?a, ?b]}"
    then have "n = 1 \<or> n = 2" by auto
    with p1 p2 show "withinBudget (getTransactionSize ([?B] @ take n [?a, ?b] @ [?A]) ''F''
                           (buildLookupTableSet []))
           \<and> length ([?B] @ take n [?a, ?b] @ [?A]) \<le> 64"
      by auto
  qed
  have one: "buildDynamicTransactionsNoSigning [?a, ?b] ''F'' [?B] [?A] [] 64
       = Inr [\<lparr>instructions = [?B] @ [?a, ?b] @ [?A], lookupTables' = []\<rparr>]"
    using pack_key_boundary [where ixs = "[?a, ?b]" and beforeIxs = "[?B]" and afterIxs = "[?A]"
             and funder = "''F''" and luts = "[]" and m = 64 and ix = "crowded_ix 127"] s all t2
    by simp
  have k: "MAX_UNIQUE_KEYS_COUNT
        < uniqueKeyCount (getTransactionSize ([] @ [crowded_ix 127] @ []) ''F'' [])"
    by (simp add: getTransactionSize_no_tables crowded_count MAX_UNIQUE_KEYS_COUNT_def)
  have m: "crowded_ix 127 \<in> set [?a, crowded_ix 127]" by simp
  have two: "\<exists>e. buildDynamicTransactionsNoSigning [?a, crowded_ix 127] ''F'' [] [] [] 64 = Inl e"
    using pack_key_boundary [where ixs = "[?a, crowded_ix 127]" and beforeIxs = "[]"
             and afterIxs = "[]" and funder = "''F''" and luts = "[]" and m = 64
             and ix = "crowded_ix 127"] k m
    by blast
  from s p1 p2 one k m two show ?thesis by simp
qed

text \<open>
  Claim C6 at an input where the code departs from it. One instruction over 127
  accounts, with the fee payer and the program 129 unique keys, and a lookup table
  that holds the 127 accounts. The estimate of the fresh minimal batch has 129 keys,
  over the key budget of 128; the estimator then leaves the table aside and returns
  the size of 129 static keys, 4363 bytes; and \<open>pack\<close> reports the batch with the
  message of the byte budget, not with the message of the key budget. With one
  account less, 128 unique keys, the table brings the estimate to 457 bytes and the
  instruction is packed. No input at all makes \<open>pack\<close> return the message of the
  key budget.
\<close>

theorem pack_key_overflow_reports_size:
  "getTransactionSize ([] @ [crowded_ix 127] @ []) ''F'' (buildLookupTableSet [crowded_table 127])
     = \<lparr>size' = 4363, lookupTables = [], uniqueKeyCount = 129\<rparr>
   \<and> buildDynamicTransactionsNoSigning [crowded_ix 127] ''F'' [] [] [crowded_table 127] 64
       = Inl (''Instruction too large to fit in transaction: '' @ ''P'')
   \<and> getTransactionSize ([] @ [crowded_ix 126] @ []) ''F'' (buildLookupTableSet [crowded_table 126])
       = \<lparr>size' = 457, lookupTables = [crowded_table 126], uniqueKeyCount = 126\<rparr>
   \<and> buildDynamicTransactionsNoSigning [crowded_ix 126] ''F'' [] [] [crowded_table 126] 64
       = Inr [\<lparr>instructions = [crowded_ix 126], lookupTables' = [crowded_table 126]\<rparr>]
   \<and> buildDynamicTransactionsNoSigning ixs funder beforeIxs afterIxs luts m
       \<noteq> Inl (''Instruction has too many unique accounts to fit in transaction: '' @ p)"
proof (intro conjI)
  show "getTransactionSize ([] @ [crowded_ix 127] @ []) ''F'' (buildLookupTableSet [crowded_table 127])
     = \<lparr>size' = 4363, lookupTables = [], uniqueKeyCount = 129\<rparr>"
    using crowded_estimate_over_keys by simp
  show "buildDynamicTransactionsNoSigning [crowded_ix 127] ''F'' [] [] [crowded_table 127] 64
       = Inl (''Instruction too large to fit in transaction: '' @ ''P'')"
    using crowded_pack_tables [of 127 "[crowded_table 127]"] by (simp add: err_ix_size_def)
  show "getTransactionSize ([] @ [crowded_ix 126] @ []) ''F'' (buildLookupTableSet [crowded_table 126])
       = \<lparr>size' = 457, lookupTables = [crowded_table 126], uniqueKeyCount = 126\<rparr>"
    using crowded_estimate_with_table by simp
  show "buildDynamicTransactionsNoSigning [crowded_ix 126] ''F'' [] [] [crowded_table 126] 64
       = Inr [\<lparr>instructions = [crowded_ix 126], lookupTables' = [crowded_table 126]\<rparr>]"
    by (rule crowded_pack_with_table)
  show "buildDynamicTransactionsNoSigning ixs funder beforeIxs afterIxs luts m
       \<noteq> Inl (''Instruction has too many unique accounts to fit in transaction: '' @ p)"
    using pack_never_key_message [of ixs funder beforeIxs afterIxs luts m p]
    by (simp add: err_ix_keys_def)
qed

section \<open>Signer coordinator: the two passes\<close>

text \<open>
  Claim C7, as amended. Take a signing cycle in which every signer answers
  \<open>requiresAsync()\<close> alike in both loops. If the cycle completes, it has made exactly
  the calls of the two-pass trace: every signer that requires async, in map order, one
  \<open>signAll\<close> over all its assigned messages, resolved before the next call; then
  every local signer the same way; so every registered signer (the keys of a map are
  distinct) is called exactly once. If a signer aborts the cycle (its \<open>signAll\<close>
  rejects, or returns another number of messages), the calls made are a prefix of that
  trace.
\<close>

theorem signing_two_passes:
  "(stableAnswers signerMap \<and> signTransactionReturns txs signerMap = Inr (txs', trace) \<longrightarrow>
      trace = spec_twoPassTrace (length txs) signerMap
      \<and> (distinct (map fst signerMap) \<longrightarrow>
           (\<forall>k \<in> set (map fst signerMap). callsOf trace k = 1)))
   \<and> (stableAnswers signerMap \<and> signTransactionReturns txs signerMap = Inl (err, trace) \<longrightarrow>
      prefix trace (spec_twoPassTrace (length txs) signerMap))"
proof (intro conjI impI)
  assume ok: "stableAnswers signerMap \<and> signTransactionReturns txs signerMap = Inr (txs', trace)"
  then obtain t1 tr1 where p1: "signPass FirstLoop signerMap (txs, []) = Inr (t1, tr1)"
    and p2: "signPass SecondLoop signerMap (t1, tr1) = Inr (txs', trace)"
    by (auto simp: signTransactionReturns_def split: sum.splits)
  from ok have st: "stableAnswers signerMap" by simp
  from signPass_Inr [OF p1] signPass_Inr [OF p2]
  show tr: "trace = spec_twoPassTrace (length txs) signerMap"
    by (simp add: spec_twoPassTrace_def stable_second_loop [OF st])
  assume d: "distinct (map fst signerMap)"
  show "\<forall>k \<in> set (map fst signerMap). callsOf trace k = 1"
  proof
    fix k assume "k \<in> set (map fst signerMap)"
    then obtain p where p: "p \<in> set signerMap" "k = fst p" by auto
    from distinct_count_one [OF d p(1)] p(2) show "callsOf trace k = 1"
      by (simp add: tr callsOf_twoPass)
  qed
next
  assume bad: "stableAnswers signerMap \<and> signTransactionReturns txs signerMap = Inl (err, trace)"
  then have st: "stableAnswers signerMap" by simp
  show "prefix trace (spec_twoPassTrace (length txs) signerMap)"
  proof (cases "signPass FirstLoop signerMap (txs, [])")
    case (Inl a)
    with bad have "signPass FirstLoop signerMap (txs, []) = Inl (err, trace)"
      by (simp add: signTransactionReturns_def)
    from signPass_Inl [OF this] show ?thesis
      by (auto simp: spec_twoPassTrace_def prefix_def)
  next
    case (Inr b)
    obtain t1 tr1 where b: "b = (t1, tr1)" by (cases b)
    with Inr bad have p2: "signPass SecondLoop signerMap (t1, tr1) = Inl (err, trace)"
      by (simp add: signTransactionReturns_def)
    from signPass_Inr [OF Inr [unfolded b]] signPass_Inl [OF p2] show ?thesis
      by (auto simp: spec_twoPassTrace_def prefix_def stable_second_loop [OF st])
  qed
qed

text \<open>
  Witness of C7: the wallet accepts, and the trace is wallet call, wallet resolution,
  key call, key resolution, although the key was registered first; the wallet rejects,
  and the trace is the wallet call alone.
\<close>

theorem signing_two_passes_witness:
  "stableAnswers (example_signers True)
   \<and> signTransactionReturns [[], []] (example_signers True)
     = Inr ([[''K''], [''W'', ''K'']],
            [SignAllCalled ''W'' [1], SignAllResolved ''W'',
             SignAllCalled ''K'' [0, 1], SignAllResolved ''K''])
   \<and> [SignAllCalled ''W'' [1], SignAllResolved ''W'',
       SignAllCalled ''K'' [0, 1], SignAllResolved ''K'']
      = spec_twoPassTrace (length [[], [] :: pubkey list]) (example_signers True)
   \<and> distinct (map fst (example_signers True))
   \<and> callsOf [SignAllCalled ''W'' [1], SignAllResolved ''W'',
               SignAllCalled ''K'' [0, 1], SignAllResolved ''K''] ''K'' = 1
   \<and> callsOf [SignAllCalled ''W'' [1], SignAllResolved ''W'',
               SignAllCalled ''K'' [0, 1], SignAllResolved ''K''] ''W'' = 1
   \<and> stableAnswers (example_signers False)
   \<and> signTransactionReturns [[], []] (example_signers False)
       = Inl (SignerRejected, [SignAllCalled ''W'' [1]])
   \<and> prefix [SignAllCalled ''W'' [1]]
        (spec_twoPassTrace (length [[], [] :: pubkey list]) (example_signers False))"
proof -
  let ?trace = "[SignAllCalled ''W'' [1], SignAllResolved ''W'',
                 SignAllCalled ''K'' [0, 1], SignAllResolved ''K'']"
  have st: "stableAnswers (example_signers b)" for b
    by (simp add: stableAnswers_def example_signers_def example_signer_def)
  have d: "distinct (map fst (example_signers True))"
    by (simp add: example_signers_def)
  have m: "''K'' \<in> set (map fst (example_signers True))"
    "''W'' \<in> set (map fst (example_signers True))"
    by (simp_all add: example_signers_def)
  from signing_two_passes [of "example_signers True" "[[], []]" "[[''K''], [''W'', ''K'']]" ?trace]
    example_signing_ok d st
  have a: "?trace = spec_twoPassTrace (length [[], [] :: pubkey list]) (example_signers True)"
    and b: "\<forall>k \<in> set (map fst (example_signers True)). callsOf ?trace k = 1"
    by blast+
  from b m have c: "callsOf ?trace ''K'' = 1" "callsOf ?trace ''W'' = 1" by blast+
  from signing_two_passes [where txs = "[[], []]" and signerMap = "example_signers False"
          and err = SignerRejected and trace = "[SignAllCalled ''W'' [1]]"]
    example_signing_rejected st
  have p: "prefix [SignAllCalled ''W'' [1]]
        (spec_twoPassTrace (length [[], [] :: pubkey list]) (example_signers False))"
    by blast
  from st example_signing_ok a d c example_signing_rejected p show ?thesis by (intro conjI)
qed

text \<open>
  Counterexample to C7 as stated. The wallet rejects: the cycle ends with its
  exception, and the registered local signer \<open>K\<close> is not invoked at all. The signer
  \<open>V\<close> answers \<open>true\<close> in the first loop and \<open>false\<close> in the second: the cycle
  completes, and \<open>V\<close> is invoked twice.
\<close>

theorem signing_not_exactly_once:
  "signTransactionReturns [[], []] (example_signers False)
       = Inl (SignerRejected, [SignAllCalled ''W'' [1]])
   \<and> ''K'' \<in> set (map fst (example_signers False))
   \<and> callsOf [SignAllCalled ''W'' [1]] ''K'' = 0
   \<and> signTransactionReturns [[]] fickle_signers
       = Inr ([[''V'', ''V'']],
              [SignAllCalled ''V'' [0], SignAllResolved ''V'',
               SignAllCalled ''V'' [0], SignAllResolved ''V''])
   \<and> callsOf [SignAllCalled ''V'' [0], SignAllResolved ''V'',
               SignAllCalled ''V'' [0], SignAllResolved ''V''] ''V'' = 2"
  by (simp add: example_signing_rejected fickle_signing)
     (simp add: example_signers_def callsOf_def)

section \<open>Submission engine: confirmation and the interval\<close>

text \<open>
  Claim C8. No send call ends with the interval still active. A call that reaches the
  confirmation ends with the interval cleared; when the confirmation reports an
  on-chain error, the call returns the context with the error as a failure value;
  when awaiting the confirmation throws, the call throws the same exception, with the
  interval cleared as well.
\<close>

theorem send_clears_interval:
  "interval (fst (sendTransaction env maxRetries)) \<noteq> IntervalActive
   \<and> (reachesConfirmation env \<longrightarrow>
        interval (fst (sendTransaction env maxRetries)) = IntervalCleared
        \<and> (\<forall>context e. confirmTransaction env = Inr (context, Some e) \<longrightarrow>
              snd (sendTransaction env maxRetries) = Inr (context, Inl e))
        \<and> (\<forall>x. confirmTransaction env = Inl x \<longrightarrow>
              snd (sendTransaction env maxRetries) = Inl x))"
  by (auto simp: sendTransaction_def reachesConfirmation_def Let_def
           split: option.splits sum.splits prod.splits)

text \<open>
  Witness of C8: a confirmation reporting an instruction error, and a confirmation
  that throws.
\<close>

theorem send_clears_interval_witness:
  "reachesConfirmation (example_send_env (Inr (7, Some ''InstructionError'')))
   \<and> interval (fst (sendTransaction (example_send_env (Inr (7, Some ''InstructionError''))) 10))
       = IntervalCleared
   \<and> snd (sendTransaction (example_send_env (Inr (7, Some ''InstructionError''))) 10)
       = Inr (7, Inl ''InstructionError'')
   \<and> reachesConfirmation (example_send_env (Inl ''timeout''))
   \<and> interval (fst (sendTransaction (example_send_env (Inl ''timeout'')) 10)) = IntervalCleared
   \<and> snd (sendTransaction (example_send_env (Inl ''timeout'')) 10) = Inl ''timeout''"
proof -
  have r: "reachesConfirmation (example_send_env c)" for c
    by (simp add: reachesConfirmation_def example_send_env_def)
  have c1: "confirmTransaction (example_send_env (Inr (7, Some ''InstructionError'')))
              = Inr (7, Some ''InstructionError'')"
    and c2: "confirmTransaction (example_send_env (Inl ''timeout'')) = Inl ''timeout''"
    by (simp_all add: example_send_env_def)
  from send_clears_interval [of "example_send_env (Inr (7, Some ''InstructionError''))" 10] r c1
  have a: "interval (fst (sendTransaction (example_send_env (Inr (7, Some ''InstructionError''))) 10))
       = IntervalCleared"
    "snd (sendTransaction (example_send_env (Inr (7, Some ''InstructionError''))) 10)
       = Inr (7, Inl ''InstructionError'')"
    by blast+
  from send_clears_interval [of "example_send_env (Inl ''timeout'')" 10] r c2
  have b: "interval (fst (sendTransaction (example_send_env (Inl ''timeout'')) 10)) = IntervalCleared"
    "snd (sendTransaction (example_send_env (Inl ''timeout'')) 10) = Inl ''timeout''"
    by blast+
  from r a b show ?thesis by (intro conjI)
qed

end
